theory Spec2Isabelle
  imports Main
begin

section \<open>JavaScript values\<close>

text \<open>
  The values of type \<open>any\<close> the code handles: \<open>rawData\<close> of \<open>normalize\<close> is whatever
  the JSON body of a request parses to, and the \<open>error\<close> of a \<open>catch\<close> block is whatever
  was thrown. An object (also an array, with its indices as keys, and an \<open>Error\<close> with
  its \<open>message\<close>) is the list of its properties, with distinct keys. Numbers are only
  tested for truthiness and passed on, so integers stand for them.
\<close>

datatype jsval =
    JUndefined
  | JNull
  | JBool bool
  | JNum int
  | JStr string
  | JObj "(string \<times> jsval) list"

datatype error = TypeError

text \<open>The value of \<open>if (v)\<close>, \<open>v || w\<close> and \<open>v ? a : b\<close>.\<close>

fun truthy :: "jsval \<Rightarrow> bool" where
  "truthy JUndefined = False"
| "truthy JNull = False"
| "truthy (JBool b) = b"
| "truthy (JNum n) = (n \<noteq> 0)"
| "truthy (JStr s) = (s \<noteq> [])"
| "truthy (JObj kvs) = True"

fun nullish :: "jsval \<Rightarrow> bool" where
  "nullish JUndefined = True"
| "nullish JNull = True"
| "nullish v = False"

text \<open>
  \<open>v.k\<close>: reading a property of \<open>undefined\<close> or \<open>null\<close> throws a \<open>TypeError\<close>. A
  property an object does not have is \<open>undefined\<close>, and so is every property that
  the code reads on a boolean, a number or a string (none of the names it uses is a
  property of the built-in prototypes).
\<close>

fun get :: "jsval \<Rightarrow> string \<Rightarrow> error + jsval" where
  "get JUndefined k = Inl TypeError"
| "get JNull k = Inl TypeError"
| "get (JObj kvs) k = Inr (case map_of kvs k of None \<Rightarrow> JUndefined | Some v \<Rightarrow> v)"
| "get v k = Inr JUndefined"

text \<open>\<open>v?.k\<close> and \<open>a || b\<close>.\<close>

definition opt_get :: "jsval \<Rightarrow> string \<Rightarrow> error + jsval" where
  "opt_get v k = (if nullish v then Inr JUndefined else get v k)"

definition js_or :: "jsval \<Rightarrow> jsval \<Rightarrow> jsval" where
  "js_or a b = (if truthy a then a else b)"

text \<open>Sequencing of steps that may throw.\<close>

definition ebind :: "error + 'a \<Rightarrow> ('a \<Rightarrow> error + 'b) \<Rightarrow> error + 'b" where
  "ebind x f = (case x of Inl e \<Rightarrow> Inl e | Inr v \<Rightarrow> f v)"

section \<open>The in-memory delivery queue (class MemoryQueue)\<close>

text \<open>
  A job as the queue creates it in \<open>enqueue\<close>. The field \<open>id\<close> of the source is
  \<open>jobId\<close> here (\<open>id\<close> is the identity function of HOL). The message is opaque to
  the queue, so its type is a parameter. \<open>retries\<close> only counts up from 0;
  \<open>maxRetries\<close> is whatever number the caller passes, so it is an integer that may
  be negative.
\<close>

record 'm QueueJob =
  jobId :: string
  message :: 'm
  target :: string
  retries :: nat
  maxRetries :: int
  createdAt :: nat

text \<open>
  What \<open>await handler(job)\<close> yields: the promise resolves with a boolean, or the
  handler throws (the promise is rejected) and the \<open>catch\<close> block receives the value
  that was thrown, which may be any value.
\<close>

datatype outcome = Resolved bool | Rejected jsval

text \<open>
  The fields of the class (\<open>queue\<close>, \<open>processing\<close>, \<open>handlers\<close>, \<open>dlq\<close>) and the part
  of the JavaScript run time the class uses:
  \<^item> \<open>handlers\<close> is the key set of the \<open>Map\<close>; the handler functions themselves are
    supplied by the adapters and their results arrive as events (see \<open>settle\<close>);
  \<^item> \<open>timers\<close> holds the pending \<open>setTimeout\<close> callbacks, each with the delay it was
    given and the job its closure captured;
  \<^item> \<open>awaiting\<close> holds one entry for every activation of \<open>process()\<close> that is
    suspended at \<open>await handler(job)\<close>, with the job it popped;
  \<^item> \<open>calls\<close> records, in order, every job a handler was invoked with;
  \<^item> \<open>aborted\<close> records the errors with which activations of \<open>process()\<close> have ended
    (the promise of such an activation is rejected; no caller awaits it).
\<close>

record 'm MemoryQueue =
  queue :: "'m QueueJob list"
  processing :: bool
  handlers :: "string set"
  dlq :: "'m QueueJob list"
  timers :: "(nat \<times> 'm QueueJob) list"
  awaiting :: "'m QueueJob list"
  calls :: "'m QueueJob list"
  aborted :: "error list"

definition defaultMaxRetries :: int where
  "defaultMaxRetries = 3"

definition retryDelay :: nat where
  "retryDelay = 1000"

definition new_queue :: "'m MemoryQueue" where
  "new_queue = \<lparr>queue = [], processing = False, handlers = {}, dlq = [],
                 timers = [], awaiting = [], calls = [], aborted = []\<rparr>"

definition registerHandler :: "string \<Rightarrow> 'm MemoryQueue \<Rightarrow> 'm MemoryQueue" where
  "registerHandler t s = s\<lparr>handlers := insert t (handlers s)\<rparr>"

text \<open>
  The \<open>while (this.queue.length > 0)\<close> loop of \<open>process\<close>, run from its head until
  the activation suspends at \<open>await handler(job)\<close> or the queue is empty (then
  \<open>processing\<close> is reset and the activation ends). The first argument is the queue
  still to be shifted. A job without a handler goes to the dead-letter queue and the
  loop continues.
\<close>

fun drain :: "'m QueueJob list \<Rightarrow> 'm MemoryQueue \<Rightarrow> 'm MemoryQueue" where
  "drain [] s = s\<lparr>queue := [], processing := False\<rparr>"
| "drain (job # rest) s =
     (if target job \<notin> handlers s
      then drain rest (s\<lparr>dlq := dlq s @ [job]\<rparr>)
      else s\<lparr>queue := rest, awaiting := awaiting s @ [job], calls := calls s @ [job]\<rparr>)"

definition while_loop :: "'m MemoryQueue \<Rightarrow> 'm MemoryQueue" where
  "while_loop s = drain (queue s) s"

definition process :: "'m MemoryQueue \<Rightarrow> 'm MemoryQueue" where
  "process s =
     (if processing s \<or> queue s = [] then s
      else while_loop (s\<lparr>processing := True\<rparr>))"

text \<open>
  \<open>enqueue(message, target, maxRetries = this.maxRetries)\<close>. The identifier built
  from \<open>Date.now()\<close> and \<open>Math.random()\<close> and the clock reading are inputs.
\<close>

definition new_job :: "string \<Rightarrow> nat \<Rightarrow> 'm \<Rightarrow> string \<Rightarrow> int option \<Rightarrow> 'm QueueJob" where
  "new_job jid now msg tgt maxR =
     \<lparr>jobId = jid, message = msg, target = tgt, retries = 0,
      maxRetries = (case maxR of None \<Rightarrow> defaultMaxRetries | Some n \<Rightarrow> n),
      createdAt = now\<rparr>"

definition enqueue ::
  "string \<Rightarrow> nat \<Rightarrow> 'm \<Rightarrow> string \<Rightarrow> int option \<Rightarrow> 'm MemoryQueue \<Rightarrow> 'm MemoryQueue" where
  "enqueue jid now msg tgt maxR s =
     (let job = new_job jid now msg tgt maxR;
          s1 = s\<lparr>queue := queue s @ [job]\<rparr>
      in if \<not> processing s1 then process s1 else s1)"

text \<open>The branch \<open>if (!success)\<close> of the loop body.\<close>

definition on_false :: "'m QueueJob \<Rightarrow> 'm MemoryQueue \<Rightarrow> 'm MemoryQueue" where
  "on_false job s =
     (if int (retries job) < maxRetries job
      then (let job1 = job\<lparr>retries := retries job + 1\<rparr>;
                delay = retryDelay * 2 ^ (retries job1 - 1)
            in s\<lparr>timers := timers s @ [(delay, job1)]\<rparr>)
      else s\<lparr>dlq := dlq s @ [job]\<rparr>)"

text \<open>
  The \<open>catch (error)\<close> block of the loop body. It first reads \<open>error.message\<close> for
  its log entry, which throws when the value caught is \<open>undefined\<close> or \<open>null\<close>; then
  it has the retry logic of the \<open>!success\<close> branch once more.
\<close>

definition on_error :: "jsval \<Rightarrow> 'm QueueJob \<Rightarrow> 'm MemoryQueue \<Rightarrow> error + 'm MemoryQueue" where
  "on_error err job s =
     ebind (get err ''message'') (\<lambda>msg.
       Inr (if int (retries job) < maxRetries job
            then (let job1 = job\<lparr>retries := retries job + 1\<rparr>;
                      delay = retryDelay * 2 ^ (retries job1 - 1)
                  in s\<lparr>timers := timers s @ [(delay, job1)]\<rparr>)
            else s\<lparr>dlq := dlq s @ [job]\<rparr>))"

text \<open>A list without its \<open>i\<close>-th entry.\<close>

definition without :: "nat \<Rightarrow> 'a list \<Rightarrow> 'a list" where
  "without i xs = take i xs @ drop (Suc i) xs"

text \<open>
  The promise awaited by the \<open>i\<close>-th suspended activation settles: the activation
  resumes after the \<open>await\<close>, takes the branch of the outcome and goes round the loop.
  An error thrown inside the \<open>catch\<close> block is caught by nobody: it ends the
  activation there, before the loop goes on and before \<open>processing\<close> is reset.
\<close>

definition settle :: "nat \<Rightarrow> outcome \<Rightarrow> 'm MemoryQueue \<Rightarrow> 'm MemoryQueue" where
  "settle i out s =
     (if i < length (awaiting s)
      then (let job = awaiting s ! i;
                s1 = s\<lparr>awaiting := without i (awaiting s)\<rparr>
            in case out of
                 Resolved True \<Rightarrow> while_loop s1
               | Resolved False \<Rightarrow> while_loop (on_false job s1)
               | Rejected err \<Rightarrow>
                   (case on_error err job s1 of
                      Inr s2 \<Rightarrow> while_loop s2
                    | Inl e \<Rightarrow> s1\<lparr>aborted := aborted s1 @ [e]\<rparr>))
      else s)"

text \<open>The callback given to \<open>setTimeout\<close>, run for the \<open>i\<close>-th pending timer.\<close>

definition timer_fire :: "nat \<Rightarrow> 'm MemoryQueue \<Rightarrow> 'm MemoryQueue" where
  "timer_fire i s =
     (if i < length (timers s)
      then (let job = snd (timers s ! i);
                s1 = s\<lparr>timers := without i (timers s), queue := queue s @ [job]\<rparr>
            in if \<not> processing s1 then process s1 else s1)
      else s)"

definition clearDLQ :: "'m MemoryQueue \<Rightarrow> 'm MemoryQueue" where
  "clearDLQ s = s\<lparr>dlq := []\<rparr>"

text \<open>
  Everything that can happen to a queue between two turns of the event loop: a call
  of a public method, the settling of an awaited handler promise, a timer firing.
\<close>

datatype 'm event =
    Enqueue string nat 'm string "int option"
  | RegisterHandler string
  | Settle nat outcome
  | TimerFire nat
  | ClearDLQ

fun step :: "'m event \<Rightarrow> 'm MemoryQueue \<Rightarrow> 'm MemoryQueue" where
  "step (Enqueue jid now msg tgt maxR) s = enqueue jid now msg tgt maxR s"
| "step (RegisterHandler t) s = registerHandler t s"
| "step (Settle i out) s = settle i out s"
| "step (TimerFire i) s = timer_fire i s"
| "step ClearDLQ s = clearDLQ s"

definition run :: "'m event list \<Rightarrow> 'm MemoryQueue \<Rightarrow> 'm MemoryQueue" where
  "run es s = foldl (\<lambda>s e. step e s) s es"

text \<open>
  Properties of queue states used below. \<open>single_drain\<close>: at most one activation of
  \<open>process()\<close> is suspended, and \<open>processing\<close> is set exactly when there is one or
  when an activation has ended with an error; after that none is suspended.
\<close>

definition single_drain :: "'m MemoryQueue \<Rightarrow> bool" where
  "single_drain s \<longleftrightarrow> length (awaiting s) \<le> 1 \<and>
     (processing s \<longleftrightarrow> awaiting s \<noteq> [] \<or> aborted s \<noteq> []) \<and>
     (aborted s \<noteq> [] \<longrightarrow> awaiting s = [])"

text \<open>
  \<open>handled\<close>: every job that is being attempted or waits for a retry has a
  registered handler, and a queued job without one has never been attempted.
\<close>

definition handled :: "'m MemoryQueue \<Rightarrow> bool" where
  "handled s \<longleftrightarrow>
     (\<forall>j \<in> set (awaiting s). target j \<in> handlers s) \<and>
     (\<forall>p \<in> set (timers s). target (snd p) \<in> handlers s) \<and>
     (\<forall>j \<in> set (queue s). target j \<notin> handlers s \<longrightarrow> retries j = 0)"

text \<open>\<open>idle_empty\<close>: when no activation is running the queue is empty.\<close>

definition idle_empty :: "'m MemoryQueue \<Rightarrow> bool" where
  "idle_empty s \<longleftrightarrow> (\<not> processing s \<longrightarrow> queue s = [])"

text \<open>The jobs a sequence of events enqueues, in order.\<close>

fun enqueued :: "'m event list \<Rightarrow> 'm QueueJob list" where
  "enqueued [] = []"
| "enqueued (Enqueue jid now msg tgt maxR # es) = new_job jid now msg tgt maxR # enqueued es"
| "enqueued (e # es) = enqueued es"

text \<open>
  An event of a run without failures: an \<open>enqueue\<close> for a target with a handler in
  \<open>H\<close>, or a handler promise resolving with \<open>true\<close>.
\<close>

fun succeeds :: "string set \<Rightarrow> 'm event \<Rightarrow> bool" where
  "succeeds H (Enqueue jid now msg tgt maxR) = (tgt \<in> H)"
| "succeeds H (Settle i out) = (out = Resolved True)"
| "succeeds H e = False"

definition fifo_inv :: "'m QueueJob list \<Rightarrow> 'm MemoryQueue \<Rightarrow> bool" where
  "fifo_inv D s \<longleftrightarrow> aborted s = [] \<and> length (awaiting s) \<le> 1 \<and>
     (processing s \<longleftrightarrow> awaiting s \<noteq> []) \<and> idle_empty s \<and>
     (\<forall>j \<in> set (queue s). target j \<in> handlers s) \<and> timers s = [] \<and> dlq s = D"

text \<open>The jobs the queue still works on; the dead-letter queue is not among them.\<close>

definition live :: "'m MemoryQueue \<Rightarrow> 'm QueueJob set" where
  "live s = set (queue s) \<union> snd ` set (timers s) \<union> set (awaiting s)"

text \<open>\<open>enqueues_id jid e\<close>: the event is an \<open>enqueue\<close> that is given the identifier \<open>jid\<close>.\<close>

fun enqueues_id :: "string \<Rightarrow> 'm event \<Rightarrow> bool" where
  "enqueues_id jid (Enqueue jid' now msg tgt maxR) = (jid' = jid)"
| "enqueues_id jid e = False"

text \<open>
  \<open>retired jid L s\<close>: no job with identifier \<open>jid\<close> is live in \<open>s\<close>, and \<open>L\<close> are the
  handler invocations so far for that identifier.
\<close>

definition retired :: "string \<Rightarrow> 'm QueueJob list \<Rightarrow> 'm MemoryQueue \<Rightarrow> bool" where
  "retired jid L s \<longleftrightarrow> jid \<notin> jobId ` live s \<and> filter (\<lambda>j. jobId j = jid) (calls s) = L"

text \<open>
  \<open>throws_nullish e\<close>: the event is a handler promise that is rejected with \<open>undefined\<close>
  or \<open>null\<close>.
\<close>

fun throws_nullish :: "'m event \<Rightarrow> bool" where
  "throws_nullish (Settle i (Rejected err)) = nullish err"
| "throws_nullish e = False"

text \<open>
  \<open>resumes e s\<close>: the event is a handler promise settling for which an activation is
  suspended in \<open>s\<close>; \<open>resumed es s\<close> is the number of such events in a run of \<open>es\<close>
  from \<open>s\<close>: the number of handler invocations that have come to their end.
\<close>

fun resumes :: "'m event \<Rightarrow> 'm MemoryQueue \<Rightarrow> bool" where
  "resumes (Settle i out) s = (i < length (awaiting s))"
| "resumes e s = False"

fun resumed :: "'m event list \<Rightarrow> 'm MemoryQueue \<Rightarrow> nat" where
  "resumed [] s = 0"
| "resumed (e # es) s = (if resumes e s then 1 else 0) + resumed es (step e s)"

text \<open>
  \<open>fifo_count E k s\<close>: of the jobs \<open>E\<close>, in order, the first \<open>k\<close> have been delivered, the
  next one is with its handler and the others wait in the queue.
\<close>

definition fifo_count :: "'m QueueJob list \<Rightarrow> nat \<Rightarrow> 'm MemoryQueue \<Rightarrow> bool" where
  "fifo_count E k s \<longleftrightarrow> k \<le> length E \<and> calls s = take (Suc k) E \<and> queue s = drop (Suc k) E \<and>
     awaiting s = (if k < length E then [E ! k] else [])"

text \<open>
  The handler invocations so far for the job with identifier \<open>jid\<close>; the places where
  the queue keeps a job; the identifiers of all jobs the queue has or has attempted.
\<close>

definition attempts :: "string \<Rightarrow> 'm MemoryQueue \<Rightarrow> 'm QueueJob list" where
  "attempts jid s = filter (\<lambda>j. jobId j = jid) (calls s)"

definition holders :: "'m MemoryQueue \<Rightarrow> 'm QueueJob list" where
  "holders s = queue s @ awaiting s @ map snd (timers s) @ dlq s"

definition known :: "'m MemoryQueue \<Rightarrow> string set" where
  "known s = jobId ` (set (holders s) \<union> set (calls s))"

text \<open>
  What a job that was enqueued as \<open>j0\<close> and has been attempted \<open>n\<close> times looks like
  where it is kept: in the queue it carries \<open>retries = n\<close> (it is new, or a timer gave
  it back after its \<open>n\<close>-th failure); with its handler it carries \<open>retries = n - 1\<close>; a
  timer set at its \<open>n\<close>-th failure has the delay \<open>retryDelay\<close> times 2 to the power
  \<open>n - 1\<close> and carries \<open>retries = n\<close>; in the dead-letter queue it has used up its
  retries.
\<close>

definition at_queue :: "'m QueueJob \<Rightarrow> nat \<Rightarrow> 'm QueueJob \<Rightarrow> bool" where
  "at_queue j0 n j \<longleftrightarrow> j = j0\<lparr>retries := n\<rparr> \<and> (n = 0 \<or> int n \<le> maxRetries j0)"

definition at_await :: "'m QueueJob \<Rightarrow> nat \<Rightarrow> 'm QueueJob \<Rightarrow> bool" where
  "at_await j0 n j \<longleftrightarrow> 0 < n \<and> j = j0\<lparr>retries := n - 1\<rparr>"

definition at_timer :: "'m QueueJob \<Rightarrow> nat \<Rightarrow> nat \<times> 'm QueueJob \<Rightarrow> bool" where
  "at_timer j0 n p \<longleftrightarrow>
     0 < n \<and> int n \<le> maxRetries j0 \<and> p = (retryDelay * 2 ^ (n - 1), j0\<lparr>retries := n\<rparr>)"

definition at_dlq :: "'m QueueJob \<Rightarrow> nat \<Rightarrow> 'm QueueJob \<Rightarrow> bool" where
  "at_dlq j0 n j \<longleftrightarrow> 0 < n \<and> \<not> int (n - 1) < maxRetries j0 \<and> j = j0\<lparr>retries := n - 1\<rparr>"

text \<open>
  \<open>tracked jid j0 s\<close>: the target of \<open>j0\<close> has a handler, the attempts for \<open>jid\<close> so
  far were made with \<open>j0\<close> at \<open>retries\<close> 0, 1, 2, ... in this order, at most one job with
  identifier \<open>jid\<close> is kept anywhere, and where it is kept it looks as described.
\<close>

definition tracked :: "string \<Rightarrow> 'm QueueJob \<Rightarrow> 'm MemoryQueue \<Rightarrow> bool" where
  "tracked jid j0 s \<longleftrightarrow>
     (let n = length (attempts jid s) in
      target j0 \<in> handlers s \<and>
      attempts jid s = map (\<lambda>r. j0\<lparr>retries := r\<rparr>) [0..<n] \<and>
      (n \<le> 1 \<or> int n \<le> maxRetries j0 + 1) \<and>
      length (filter (\<lambda>j. jobId j = jid) (holders s)) \<le> 1 \<and>
      (\<forall>j \<in> set (queue s). jobId j = jid \<longrightarrow> at_queue j0 n j) \<and>
      (\<forall>j \<in> set (awaiting s). jobId j = jid \<longrightarrow> at_await j0 n j) \<and>
      (\<forall>p \<in> set (timers s). jobId (snd p) = jid \<longrightarrow> at_timer j0 n p) \<and>
      (\<forall>j \<in> set (dlq s). jobId j = jid \<longrightarrow> at_dlq j0 n j))"

text \<open>
  \<open>fails_if_for jid e s\<close>: if the event is the end of a handler call for the job with
  identifier \<open>jid\<close>, the handler returns \<open>false\<close>. \<open>always_fails jid es s\<close>: so it is with
  every event of a run of \<open>es\<close> from \<open>s\<close>.
\<close>

fun fails_if_for :: "string \<Rightarrow> 'm event \<Rightarrow> 'm MemoryQueue \<Rightarrow> bool" where
  "fails_if_for jid (Settle i out) s =
     (i < length (awaiting s) \<and> jobId (awaiting s ! i) = jid \<longrightarrow> out = Resolved False)"
| "fails_if_for jid e s = True"

fun always_fails :: "string \<Rightarrow> 'm event list \<Rightarrow> 'm MemoryQueue \<Rightarrow> bool" where
  "always_fails jid [] s = True"
| "always_fails jid (e # es) s = (fails_if_for jid e s \<and> always_fails jid es (step e s))"

section \<open>Event deduplication (class GitHubService)\<close>

text \<open>
  \<open>processedEvents\<close> is a JavaScript \<open>Set\<close> of strings: it iterates in insertion
  order and holds no element twice. It is modelled by the list of its elements in
  insertion order. \<open>add\<close> of an element that is present changes nothing; \<open>delete\<close>
  removes the element.
\<close>

definition set_add :: "string \<Rightarrow> string list \<Rightarrow> string list" where
  "set_add x xs = (if x \<in> set xs then xs else xs @ [x])"

definition set_delete :: "string \<Rightarrow> string list \<Rightarrow> string list" where
  "set_delete x xs = removeAll x xs"

text \<open>\<open>isEventProcessed(eventId)\<close>: a lookup, which leaves the set as it is.\<close>

definition isEventProcessed :: "string \<Rightarrow> string list \<Rightarrow> bool" where
  "isEventProcessed eventId processedEvents \<longleftrightarrow> eventId \<in> set processedEvents"

text \<open>
  \<open>markEventProcessed(eventId)\<close>. \<open>values().next().value\<close> is the first element in
  insertion order, \<open>undefined\<close> for an empty set. The test \<open>if (first)\<close> is a test for
  truthiness: it fails for \<open>undefined\<close> and for the empty string.
\<close>

definition markEventProcessed :: "string \<Rightarrow> string list \<Rightarrow> string list" where
  "markEventProcessed eventId processedEvents =
     (let s1 = set_add eventId processedEvents
      in if length s1 > 1000
         then (case s1 of
                 [] \<Rightarrow> s1
               | first # _ \<Rightarrow> if first \<noteq> [] then set_delete first s1 else s1)
         else s1)"

text \<open>Marking a sequence of event identifiers one after the other.\<close>

definition mark_all :: "string list \<Rightarrow> string list \<Rightarrow> string list" where
  "mark_all ids s = foldl (\<lambda>s e. markEventProcessed e s) s ids"

section \<open>Message normalisation (class MessageSanitizer)\<close>

text \<open>The decimal digits of a number, as template literals and property keys show it.\<close>

fun show_nat :: "nat \<Rightarrow> string" where
  "show_nat n =
     (if n < 10 then [''0123456789'' ! n]
      else show_nat (n div 10) @ [''0123456789'' ! (n mod 10)])"

declare show_nat.simps [simp del]

text \<open>
  \<open>{ ...v }\<close>: the own enumerable properties of \<open>v\<close>; for a string its characters
  under their indices, nothing for the other primitive values.
\<close>

definition spread :: "jsval \<Rightarrow> (string \<times> jsval) list" where
  "spread v =
     (case v of
        JObj kvs \<Rightarrow> kvs
      | JStr s \<Rightarrow> map (\<lambda>i. (show_nat i, JStr [s ! i])) [0..<length s]
      | _ \<Rightarrow> [])"

datatype Source = Telegram | Github | Api | Internal

fun source_name :: "Source \<Rightarrow> string" where
  "source_name Telegram = ''telegram''"
| "source_name Github = ''github''"
| "source_name Api = ''api''"
| "source_name Internal = ''internal''"

record NormalizedMessage =
  msgId :: string
  source :: Source
  timestamp :: nat
  title :: jsval
  content :: jsval
  author :: jsval
  metadata :: "(string \<times> jsval) list"
  sanitized :: bool

text \<open>
  The four local variables \<open>title\<close>, \<open>content\<close>, \<open>author\<close>, \<open>metadata\<close> of \<open>normalize\<close>
  with their initial values, and the four cases of its \<open>switch\<close>. \<open>rawData.message\<close>
  and \<open>rawData.issue\<close> are read once here; reading them again gives the same value.
\<close>

record fields =
  f_title :: jsval
  f_content :: jsval
  f_author :: jsval
  f_metadata :: "(string \<times> jsval) list"

definition initial_fields :: fields where
  "initial_fields = \<lparr>f_title = JUndefined, f_content = JStr [], f_author = JUndefined, f_metadata = []\<rparr>"

definition telegram_case :: "jsval \<Rightarrow> error + fields" where
  "telegram_case rawData =
     ebind (get rawData ''message'') (\<lambda>m.
       if truthy m then
         ebind (get m ''text'') (\<lambda>text.
         ebind (get m ''from'') (\<lambda>from1.
         ebind (opt_get from1 ''username'') (\<lambda>username.
         ebind (if truthy username then Inr username
                else ebind (get m ''from'') (\<lambda>from2. opt_get from2 ''first_name'')) (\<lambda>auth.
         ebind (get m ''chat'') (\<lambda>chat.
         ebind (opt_get chat ''id'') (\<lambda>chatId.
         ebind (get m ''message_id'') (\<lambda>messageId.
           Inr (initial_fields\<lparr>f_content := js_or text (JStr []), f_author := auth,
                  f_metadata := [(''chatId'', chatId), (''messageId'', messageId)]\<rparr>))))))))
       else Inr initial_fields)"

definition github_case :: "jsval \<Rightarrow> error + fields" where
  "github_case rawData =
     ebind (get rawData ''issue'') (\<lambda>issue.
       if truthy issue then
         ebind (get issue ''title'') (\<lambda>t.
         ebind (get issue ''body'') (\<lambda>body.
         ebind (get issue ''user'') (\<lambda>user.
         ebind (opt_get user ''login'') (\<lambda>login.
         ebind (get issue ''number'') (\<lambda>number.
         ebind (get rawData ''repository'') (\<lambda>repository.
         ebind (opt_get repository ''full_name'') (\<lambda>full_name.
         ebind (get rawData ''action'') (\<lambda>action.
           Inr \<lparr>f_title = t, f_content = js_or body (JStr []), f_author = login,
                f_metadata = [(''issueNumber'', number), (''repository'', full_name),
                              (''action'', action)]\<rparr>))))))))
       else Inr initial_fields)"

text \<open>
  The cases \<open>'api'\<close> and \<open>'internal'\<close> differ in the author only: \<open>'internal'\<close> falls
  back to \<open>'system'\<close>.
\<close>

definition api_case :: "bool \<Rightarrow> jsval \<Rightarrow> error + fields" where
  "api_case internal rawData =
     ebind (get rawData ''title'') (\<lambda>t.
     ebind (get rawData ''content'') (\<lambda>c.
     ebind (if truthy c then Inr c
            else ebind (get rawData ''message'') (\<lambda>m. Inr (js_or m (JStr [])))) (\<lambda>cont.
     ebind (get rawData ''author'') (\<lambda>a.
     ebind (get rawData ''metadata'') (\<lambda>md.
     ebind (if truthy md then ebind (get rawData ''metadata'') (\<lambda>md2. Inr (spread md2))
            else Inr []) (\<lambda>meta.
       Inr \<lparr>f_title = t, f_content = cont,
            f_author = (if internal then js_or a (JStr ''system'') else a),
            f_metadata = meta\<rparr>))))))"

text \<open>
  \<open>normalize(source, rawData)\<close>. The two readings of \<open>Date.now()\<close> and the random
  suffix of the identifier are inputs.
\<close>

definition normalize :: "Source \<Rightarrow> nat \<Rightarrow> string \<Rightarrow> nat \<Rightarrow> jsval \<Rightarrow> error + NormalizedMessage" where
  "normalize src now1 rnd now2 rawData =
     (let ident = source_name src @ ''_'' @ show_nat now1 @ ''_'' @ rnd;
          stamp = now2
      in ebind (case src of
                  Telegram \<Rightarrow> telegram_case rawData
                | Github \<Rightarrow> github_case rawData
                | Api \<Rightarrow> api_case False rawData
                | Internal \<Rightarrow> api_case True rawData)
           (\<lambda>f. Inr \<lparr>msgId = ident, source = src, timestamp = stamp, title = f_title f,
                      content = f_content f, author = f_author f, metadata = f_metadata f,
                      sanitized = False\<rparr>))"

text \<open>The value of a property where reading it does not throw.\<close>

definition field_of :: "jsval \<Rightarrow> string \<Rightarrow> jsval" where
  "field_of v k = (case get v k of Inl e \<Rightarrow> JUndefined | Inr w \<Rightarrow> w)"

section \<open>Regular expressions as the sanitizer uses them\<close>

text \<open>
  Strings are lists of code units; the characters of HOL cover the code units below
  256, which contain every character the patterns of the sanitizer name. None of the
  patterns has the \<open>u\<close> flag, so they work on code units.

  The patterns are built from single character classes (\<open>Cls\<close>), greedy bounded
  repetitions of a character class (\<open>Rep p lo hi\<close> for \<open>{lo,hi}\<close>, with \<open>hi = None\<close> for
  no upper bound), sequences, alternatives and capturing groups: this covers every
  pattern literal in \<open>hideSensitive\<close> and \<open>stripHtml\<close>.
\<close>

datatype re =
    Cls "char \<Rightarrow> bool"
  | Rep "char \<Rightarrow> bool" nat "nat option"
  | Seq re re
  | Alt re re
  | Grp re

text \<open>The repetition counts a greedy quantifier tries, in its order: from \<open>n\<close> down to \<open>lo\<close>.\<close>

fun counts :: "nat \<Rightarrow> nat \<Rightarrow> nat list" where
  "counts lo 0 = (if lo = 0 then [0] else [])"
| "counts lo (Suc k) = (if lo \<le> Suc k then Suc k # counts lo k else [])"

text \<open>
  The backtracking matcher: all the ways the pattern matches at the start of the
  string, in the order in which the JavaScript matcher tries them, each with the texts
  of its capturing groups and the rest of the string. An alternative tries its left
  side first; a sequence, for every way to match its first part in order, every way to
  match the second; a greedy repetition takes as many characters as it can and gives
  them back one by one.
\<close>

fun matches :: "re \<Rightarrow> string \<Rightarrow> (string list \<times> string) list" where
  "matches (Cls p) s = (case s of [] \<Rightarrow> [] | c # cs \<Rightarrow> if p c then [([], cs)] else [])"
| "matches (Rep p lo hi) s =
     (let n = length (takeWhile p s);
          top = (case hi of None \<Rightarrow> n | Some h \<Rightarrow> min h n)
      in map (\<lambda>k. ([], drop k s)) (counts lo top))"
| "matches (Seq a b) s =
     concat (map (\<lambda>(g1, s1). map (\<lambda>(g2, s2). (g1 @ g2, s2)) (matches b s1)) (matches a s))"
| "matches (Alt a b) s = matches a s @ matches b s"
| "matches (Grp a) s = map (\<lambda>(g, s1). (take (length s - length s1) s # g, s1)) (matches a s)"

declare matches.simps [simp del]

text \<open>
  \<open>exec\<close> is the first match at the start of the string: the matched text, the
  captured groups and the rest.
\<close>

definition exec :: "re \<Rightarrow> string \<Rightarrow> (string \<times> string list \<times> string) option" where
  "exec r s = (case matches r s of [] \<Rightarrow> None
               | (gs, rest) # _ \<Rightarrow> Some (take (length s - length rest) s, gs, rest))"

text \<open>
  \<open>str.replace(/re/g, f)\<close> with a callback \<open>f(match, group1, ...)\<close>: the string is
  scanned from the left; at a match the callback's result is emitted and the scan
  goes on behind the match, elsewhere the character is copied. (After an empty match
  the scan moves on by one character; no pattern here has one.)
\<close>

function replace_all :: "re \<Rightarrow> (string \<Rightarrow> string list \<Rightarrow> string) \<Rightarrow> string \<Rightarrow> string" where
  "replace_all r f [] = (case exec r [] of None \<Rightarrow> [] | Some (m, gs, rest) \<Rightarrow> f m gs)"
| "replace_all r f (c # cs) =
     (case exec r (c # cs) of
        None \<Rightarrow> c # replace_all r f cs
      | Some (m, gs, rest) \<Rightarrow>
          if length rest < length (c # cs) then f m gs @ replace_all r f rest
          else f m gs @ c # replace_all r f cs)"
  by pat_completeness auto

termination
  by (relation "measure (\<lambda>(r, f, s). length s)") auto

section \<open>Redaction and markup stripping (class MessageSanitizer)\<close>

text \<open>The character classes of the patterns: digits, lower case, upper case, letters, letters and digits.\<close>

definition is_digit :: "char \<Rightarrow> bool" where
  "is_digit c \<longleftrightarrow> c \<in> set ''0123456789''"

definition is_lower :: "char \<Rightarrow> bool" where
  "is_lower c \<longleftrightarrow> c \<in> set ''abcdefghijklmnopqrstuvwxyz''"

definition is_upper :: "char \<Rightarrow> bool" where
  "is_upper c \<longleftrightarrow> c \<in> set ''ABCDEFGHIJKLMNOPQRSTUVWXYZ''"

definition is_alpha :: "char \<Rightarrow> bool" where
  "is_alpha c \<longleftrightarrow> is_lower c \<or> is_upper c"

definition is_alnum :: "char \<Rightarrow> bool" where
  "is_alnum c \<longleftrightarrow> is_alpha c \<or> is_digit c"

text \<open>White space (the class written with a backslash and \<open>s\<close>) among the code units below 256.\<close>

definition is_space :: "char \<Rightarrow> bool" where
  "is_space c \<longleftrightarrow> c \<in> set [CHR 0x09, CHR 0x0A, CHR 0x0B, CHR 0x0C, CHR 0x0D, CHR 0x20, CHR 0xA0]"

text \<open>
  The bracket expressions of the patterns: separators of a phone number, the
  characters of a credential value, of the user part and of the domain of an e-mail
  address, \<open>[:=]\<close> and \<open>[_-]\<close>.
\<close>

definition is_sep :: "char \<Rightarrow> bool" where
  "is_sep c \<longleftrightarrow> c \<in> set ''-.'' \<or> is_space c"

definition is_token_char :: "char \<Rightarrow> bool" where
  "is_token_char c \<longleftrightarrow> is_alnum c \<or> c \<in> set ''_-''"

definition is_user_char :: "char \<Rightarrow> bool" where
  "is_user_char c \<longleftrightarrow> is_alnum c \<or> c \<in> set ''._%+-''"

definition is_domain_char :: "char \<Rightarrow> bool" where
  "is_domain_char c \<longleftrightarrow> is_alnum c \<or> c \<in> set ''.-''"

definition is_assign :: "char \<Rightarrow> bool" where
  "is_assign c \<longleftrightarrow> c \<in> set '':=''"

definition is_join :: "char \<Rightarrow> bool" where
  "is_join c \<longleftrightarrow> c \<in> set ''_-''"

text \<open>
  A lower-case letter of a pattern with the \<open>i\<close> flag matches itself and its upper
  case; a word of the pattern is the sequence of its letters.
\<close>

definition same_ci :: "char \<Rightarrow> char \<Rightarrow> bool" where
  "same_ci x c \<longleftrightarrow> c = x \<or> (is_lower x \<and> of_char c + 32 = (of_char x :: nat))"

fun word_ci :: "string \<Rightarrow> re" where
  "word_ci [] = Rep (\<lambda>c. False) 0 (Some 0)"
| "word_ci [x] = Cls (same_ci x)"
| "word_ci (x # xs) = Seq (Cls (same_ci x)) (word_ci xs)"

text \<open>\<open>x?\<close> for a character class \<open>x\<close>.\<close>

definition opt :: "(char \<Rightarrow> bool) \<Rightarrow> re" where
  "opt p = Rep p 0 (Some 1)"

text \<open>
  The three pattern literals of \<open>hideSensitive\<close>, in its order: the credential
  pattern (a keyword \<open>token\<close>, \<open>api_key\<close>, \<open>api-key\<close>, \<open>apikey\<close>, \<open>secret\<close>, \<open>password\<close>,
  \<open>passwd\<close> or \<open>pwd\<close> in any case, white space, \<open>:\<close> or \<open>=\<close>, white space, and a group
  of 20 or more value characters), the e-mail pattern (a group for the user part,
  \<open>@\<close>, and a group for the domain with a top-level part of two or more letters) and
  the phone pattern (one group: an optional \<open>+\<close>, then digit groups of 1 to 3, 1 to 4,
  1 to 4 and 1 to 9 digits with an optional separator between them, an optional
  opening parenthesis before the second and an optional closing one after it).
  The pattern for payment cards in \<open>SENSITIVE_PATTERNS\<close> is not used by
  \<open>hideSensitive\<close>, nor is any other entry of that table.
\<close>

definition token_re :: re where
  "token_re =
     Seq (Alt (word_ci ''token'')
         (Alt (Seq (word_ci ''api'') (Seq (opt is_join) (word_ci ''key'')))
         (Alt (word_ci ''secret'')
         (Alt (word_ci ''password'')
         (Alt (word_ci ''passwd'') (word_ci ''pwd''))))))
    (Seq (Rep is_space 0 None)
    (Seq (Cls is_assign)
    (Seq (Rep is_space 0 None)
         (Grp (Rep is_token_char 20 None)))))"

definition email_re :: re where
  "email_re =
     Seq (Grp (Rep is_user_char 1 None))
    (Seq (Cls (\<lambda>c. c = CHR ''@''))
         (Grp (Seq (Rep is_domain_char 1 None)
              (Seq (Cls (\<lambda>c. c = CHR ''.'')) (Rep is_alpha 2 None)))))"

definition phone_re :: re where
  "phone_re =
     Grp (Seq (opt (\<lambda>c. c = CHR ''+''))
         (Seq (Rep is_digit 1 (Some 3))
         (Seq (opt is_sep)
         (Seq (opt (\<lambda>c. c = CHR ''(''))
         (Seq (Rep is_digit 1 (Some 4))
         (Seq (opt (\<lambda>c. c = CHR '')''))
         (Seq (opt is_sep)
         (Seq (Rep is_digit 1 (Some 4))
         (Seq (opt is_sep)
              (Rep is_digit 1 (Some 9)))))))))))"

text \<open>
  \<open>s.replace(pat, rep)\<close> with a string pattern replaces the first occurrence of
  \<open>pat\<close>. (The replacement texts below contain no dollar sign.)
\<close>

fun replace_first :: "string \<Rightarrow> string \<Rightarrow> string \<Rightarrow> string" where
  "replace_first pat rep [] = (if pat = [] then rep else [])"
| "replace_first pat rep (c # cs) =
     (if take (length pat) (c # cs) = pat then rep @ drop (length pat) (c # cs)
      else c # replace_first pat rep cs)"

text \<open>The three callbacks of \<open>hideSensitive\<close>, and the function itself.\<close>

definition mask_token :: "string \<Rightarrow> string list \<Rightarrow> string" where
  "mask_token m gs =
     (let token = hd gs
      in if length token > 8
         then replace_first token (take 2 token @ ''****'' @ drop (length token - 2) token) m
         else replace_first token ''****'' m)"

definition mask_email :: "string \<Rightarrow> string list \<Rightarrow> string" where
  "mask_email m gs =
     (let user = gs ! 0; domain = gs ! 1;
          hiddenUser = (if length user > 2 then take 2 user @ ''****'' else ''****'')
      in hiddenUser @ ''@'' @ domain)"

definition mask_phone :: "string \<Rightarrow> string list \<Rightarrow> string" where
  "mask_phone m gs =
     (let digits = replace_all (Cls (\<lambda>c. \<not> is_digit c)) (\<lambda>_ _. []) m
      in if length digits > 4
         then take 2 digits @ ''****'' @ drop (length digits - 2) digits
         else ''****'')"

definition hideSensitive :: "string \<Rightarrow> string" where
  "hideSensitive text =
     (let sanitized1 = replace_all token_re mask_token text;
          sanitized2 = replace_all email_re mask_email sanitized1;
          sanitized3 = replace_all phone_re mask_phone sanitized2
      in sanitized3)"

text \<open>
  \<open>stripHtml\<close>: first everything from a \<open><\<close> to the next \<open>>\<close> is removed, then
  everything from a \<open>&\<close> over at least one character to the next \<open>;\<close>.
\<close>

definition tag_re :: re where
  "tag_re = Seq (Cls (\<lambda>c. c = CHR ''<'')) (Seq (Rep (\<lambda>c. c \<noteq> CHR ''>'') 0 None) (Cls (\<lambda>c. c = CHR ''>'')))"

definition entity_re :: re where
  "entity_re = Seq (Cls (\<lambda>c. c = CHR ''&'')) (Seq (Rep (\<lambda>c. c \<noteq> CHR '';'') 1 None) (Cls (\<lambda>c. c = CHR '';'')))"

definition stripHtml :: "string \<Rightarrow> string" where
  "stripHtml html = replace_all entity_re (\<lambda>_ _. []) (replace_all tag_re (\<lambda>_ _. []) html)"

text \<open>
  \<open>sanitizeMessage(message, hideSensitive)\<close>. \<open>content\<close> and a truthy \<open>title\<close> must be
  strings: \<open>replace\<close> is a method of strings only, so any other value throws a
  \<open>TypeError\<close>. A falsy title is left as it is.
\<close>

definition as_string :: "jsval \<Rightarrow> error + string" where
  "as_string v = (case v of JStr s \<Rightarrow> Inr s | _ \<Rightarrow> Inl TypeError)"

definition on_title :: "(string \<Rightarrow> string) \<Rightarrow> jsval \<Rightarrow> error + jsval" where
  "on_title f t = (if truthy t then ebind (as_string t) (\<lambda>s. Inr (JStr (f s))) else Inr t)"

definition sanitizeMessage :: "NormalizedMessage \<Rightarrow> bool \<Rightarrow> error + NormalizedMessage" where
  "sanitizeMessage msg hide =
     ebind (as_string (content msg)) (\<lambda>c0.
     ebind (on_title stripHtml (title msg)) (\<lambda>t1.
     ebind (if hide then on_title hideSensitive t1 else Inr t1) (\<lambda>t2.
       Inr (msg\<lparr>content := JStr ((if hide then hideSensitive else (\<lambda>x. x)) (stripHtml c0)),
                title := t2, sanitized := True\<rparr>))))"

text \<open>A message from the API with the given content, for examples.\<close>

definition memo :: "string \<Rightarrow> bool \<Rightarrow> NormalizedMessage" where
  "memo body fin = \<lparr>msgId = ''api_1_x'', source = Api, timestamp = 1, title = JUndefined,
     content = JStr body, author = JUndefined, metadata = [], sanitized = fin\<rparr>"

section \<open>Notions used in the proofs about the sanitizer\<close>

text \<open>
  Strings of digits and strings without a digit; a pattern that matches no string
  without a digit.
\<close>

definition all_digits :: "string \<Rightarrow> bool" where
  "all_digits ds \<longleftrightarrow> (\<forall>c \<in> set ds. is_digit c)"

definition digit_free :: "string \<Rightarrow> bool" where
  "digit_free u \<longleftrightarrow> (\<forall>c \<in> set u. \<not> is_digit c)"

definition needs_digit :: "re \<Rightarrow> bool" where
  "needs_digit R \<longleftrightarrow> (\<forall>u. digit_free u \<longrightarrow> matches R u = [])"

text \<open>
  The phone pattern without its outer group, and the numbers of digits it takes from
  a run of \<open>n\<close> digits, in the order in which the matcher arrives at them.
\<close>

definition phone_body :: re where
  "phone_body =
     Seq (opt (\<lambda>c. c = CHR ''+''))
         (Seq (Rep is_digit 1 (Some 3))
         (Seq (opt is_sep)
         (Seq (opt (\<lambda>c. c = CHR ''(''))
         (Seq (Rep is_digit 1 (Some 4))
         (Seq (opt (\<lambda>c. c = CHR '')''))
         (Seq (opt is_sep)
         (Seq (Rep is_digit 1 (Some 4))
         (Seq (opt is_sep)
              (Rep is_digit 1 (Some 9))))))))))"

definition phone_paths :: "nat \<Rightarrow> nat list" where
  "phone_paths n =
     concat (map (\<lambda>k1.
       concat (map (\<lambda>k2.
         concat (map (\<lambda>k3.
           map (\<lambda>k4. k1 + k2 + k3 + k4) (counts 1 (min 9 (n - k1 - k2 - k3))))
           (counts 1 (min 4 (n - k1 - k2)))))
         (counts 1 (min 4 (n - k1)))))
       (counts 1 (min 3 n)))"



text \<open>
  \<open>no_tag\<close>: no \<open><\<close> has a \<open>>\<close> after it. \<open>no_entity\<close>: every \<open>&\<close> is followed at once
  by \<open>;\<close> or has no \<open>;\<close> behind its next character.
\<close>

fun no_tag :: "string \<Rightarrow> bool" where
  "no_tag [] = True"
| "no_tag (c # cs) = ((c = CHR ''<'' \<longrightarrow> CHR ''>'' \<notin> set cs) \<and> no_tag cs)"

fun no_entity :: "string \<Rightarrow> bool" where
  "no_entity [] = True"
| "no_entity (c # cs) =
     ((c = CHR ''&'' \<longrightarrow> (case cs of [] \<Rightarrow> True | d # ds \<Rightarrow> d = CHR '';'' \<or> CHR '';'' \<notin> set ds))
      \<and> no_entity cs)"

text \<open>
  The four characters markup is made of, and strings and patterns free of them; the
  number of capturing groups of a pattern (when it is the same on every path) and
  the least number of characters a match takes; a replacement pass whose matches
  are not empty and whose matches and replacements are free of markup characters.
\<close>

definition markup_char :: "char \<Rightarrow> bool" where
  "markup_char c \<longleftrightarrow> c \<in> set ''<>&;''"

definition plain :: "string \<Rightarrow> bool" where
  "plain s \<longleftrightarrow> (\<forall>c \<in> set s. \<not> markup_char c)"

fun plain_re :: "re \<Rightarrow> bool" where
  "plain_re (Cls p) = (\<forall>c. p c \<longrightarrow> \<not> markup_char c)"
| "plain_re (Rep p lo hi) = (\<forall>c. p c \<longrightarrow> \<not> markup_char c)"
| "plain_re (Seq a b) = (plain_re a \<and> plain_re b)"
| "plain_re (Alt a b) = (plain_re a \<and> plain_re b)"
| "plain_re (Grp a) = plain_re a"

fun group_count :: "re \<Rightarrow> nat option" where
  "group_count (Cls p) = Some 0"
| "group_count (Rep p lo hi) = Some 0"
| "group_count (Seq a b) =
     (case (group_count a, group_count b) of (Some m, Some n) \<Rightarrow> Some (m + n) | _ \<Rightarrow> None)"
| "group_count (Alt a b) =
     (case (group_count a, group_count b) of
        (Some m, Some n) \<Rightarrow> if m = n then Some m else None
      | _ \<Rightarrow> None)"
| "group_count (Grp a) = (case group_count a of Some m \<Rightarrow> Some (Suc m) | None \<Rightarrow> None)"

fun min_len :: "re \<Rightarrow> nat" where
  "min_len (Cls p) = 1"
| "min_len (Rep p lo hi) = lo"
| "min_len (Seq a b) = min_len a + min_len b"
| "min_len (Alt a b) = min (min_len a) (min_len b)"
| "min_len (Grp a) = min_len a"

definition plain_pass :: "re \<Rightarrow> (string \<Rightarrow> string list \<Rightarrow> string) \<Rightarrow> bool" where
  "plain_pass r f \<longleftrightarrow>
     (\<forall>s m gs rest. exec r s = Some (m, gs, rest) \<longrightarrow> m \<noteq> [] \<and> plain m \<and> plain (f m gs))"
section \<open>Properties of the delivery queue\<close>

lemma without_Nil [simp]: "without i [] = []"
  by (simp add: without_def)

lemma without_0 [simp]: "without 0 (x # xs) = xs"
  by (simp add: without_def)

lemma without_Suc [simp]: "without (Suc i) (x # xs) = x # without i xs"
  by (simp add: without_def)

lemma drain_unhandled:
  "\<forall>x \<in> set q. target x \<notin> handlers s \<Longrightarrow>
   drain q s = s\<lparr>queue := [], processing := False, dlq := dlq s @ q\<rparr>"
  by (induction q arbitrary: s) auto

lemma drain_append_handled:
  "\<forall>x \<in> set pre. target x \<notin> handlers s \<Longrightarrow> target j \<in> handlers s \<Longrightarrow>
   drain (pre @ j # rest) s =
     s\<lparr>queue := rest, dlq := dlq s @ pre, awaiting := awaiting s @ [j], calls := calls s @ [j]\<rparr>"
  by (induction pre arbitrary: s) auto

lemma split_first_handled:
  "(\<forall>x \<in> set q. target x \<notin> H) \<or>
   (\<exists>pre j rest. q = pre @ j # rest \<and> (\<forall>x \<in> set pre. target x \<notin> H) \<and> target j \<in> H)"
proof (induction q)
  case Nil
  then show ?case by simp
next
  case (Cons a q)
  show ?case
  proof (cases "target a \<in> H")
    case True
    then have "a # q = [] @ a # q \<and> (\<forall>x \<in> set []. target x \<notin> H) \<and> target a \<in> H" by simp
    then show ?thesis by blast
  next
    case False
    from Cons show ?thesis
    proof
      assume "\<forall>x \<in> set q. target x \<notin> H"
      with False show ?thesis by simp
    next
      assume "\<exists>pre j rest. q = pre @ j # rest \<and> (\<forall>x \<in> set pre. target x \<notin> H) \<and> target j \<in> H"
      then obtain pre j rest where "q = pre @ j # rest" "\<forall>x \<in> set pre. target x \<notin> H" "target j \<in> H"
        by blast
      with False have "a # q = (a # pre) @ j # rest \<and> (\<forall>x \<in> set (a # pre). target x \<notin> H) \<and> target j \<in> H"
        by simp
      then show ?thesis by blast
    qed
  qed
qed

lemma single_drain_drain:
  assumes "awaiting s = []" "processing s" "aborted s = []"
  shows "single_drain (drain q s)"
  using split_first_handled [of q "handlers s"]
proof
  assume "\<forall>x \<in> set q. target x \<notin> handlers s"
  then show ?thesis using assms by (simp add: drain_unhandled single_drain_def)
next
  assume "\<exists>pre j rest. q = pre @ j # rest \<and> (\<forall>x \<in> set pre. target x \<notin> handlers s) \<and> target j \<in> handlers s"
  then obtain pre j rest where "q = pre @ j # rest" "\<forall>x \<in> set pre. target x \<notin> handlers s" "target j \<in> handlers s"
    by blast
  then show ?thesis using assms by (simp add: drain_append_handled single_drain_def)
qed

lemma on_false_fields [simp]:
  "awaiting (on_false j s) = awaiting s" "processing (on_false j s) = processing s"
  "queue (on_false j s) = queue s" "handlers (on_false j s) = handlers s"
  "calls (on_false j s) = calls s"
  by (simp_all add: on_false_def Let_def)

lemma on_false_aborted [simp]: "aborted (on_false j s) = aborted s"
  by (simp add: on_false_def Let_def)

lemma drain_aborted [simp]: "aborted (drain q s) = aborted s"
  by (induction q arbitrary: s) simp_all

lemma on_error_cases:
  "on_error err j s = (if nullish err then Inl TypeError else Inr (on_false j s))"
  by (cases err) (simp_all add: on_error_def on_false_def ebind_def)

lemma settle_cases:
  "settle i out s =
     (if i < length (awaiting s)
      then (case out of
              Resolved True \<Rightarrow> while_loop (s\<lparr>awaiting := without i (awaiting s)\<rparr>)
            | Resolved False \<Rightarrow>
                while_loop (on_false (awaiting s ! i) (s\<lparr>awaiting := without i (awaiting s)\<rparr>))
            | Rejected err \<Rightarrow>
                if nullish err
                then s\<lparr>awaiting := without i (awaiting s), aborted := aborted s @ [TypeError]\<rparr>
                else while_loop (on_false (awaiting s ! i) (s\<lparr>awaiting := without i (awaiting s)\<rparr>)))
      else s)"
  by (simp add: settle_def Let_def on_error_cases split: outcome.split bool.split)

lemma single_drain_process:
  "awaiting s = [] \<Longrightarrow> \<not> processing s \<Longrightarrow> aborted s = [] \<Longrightarrow> single_drain (process s)"
  by (simp add: process_def while_loop_def single_drain_drain) (simp add: single_drain_def)

lemma single_drain_step: "single_drain s \<Longrightarrow> single_drain (step e s)"
proof (cases e)
  case (Enqueue jid now msg tgt maxR)
  assume a: "single_drain s"
  show ?thesis
  proof (cases "processing s")
    case True
    with a show ?thesis using Enqueue by (simp add: enqueue_def Let_def single_drain_def)
  next
    case False
    with a have "awaiting s = []" "aborted s = []" by (simp_all add: single_drain_def)
    with False show ?thesis using Enqueue
      by (simp add: enqueue_def Let_def single_drain_process)
  qed
next
  case (RegisterHandler t)
  assume "single_drain s"
  then show ?thesis using RegisterHandler by (simp add: single_drain_def registerHandler_def)
next
  case (Settle i out)
  assume a: "single_drain s"
  show ?thesis
  proof (cases "i < length (awaiting s)")
    case True
    with a obtain j where j: "awaiting s = [j]" "i = 0" "processing s" "aborted s = []"
      by (cases "awaiting s") (auto simp: single_drain_def)
    have "single_drain (s\<lparr>awaiting := [], aborted := [TypeError]\<rparr>)"
      using j by (simp add: single_drain_def)
    then show ?thesis using Settle j
      by (simp add: settle_cases while_loop_def single_drain_drain split: outcome.split bool.split)
  next
    case False
    then show ?thesis using Settle a by (simp add: settle_def)
  qed
next
  case (TimerFire i)
  assume a: "single_drain s"
  show ?thesis
  proof (cases "processing s")
    case True
    with a show ?thesis using TimerFire by (simp add: timer_fire_def Let_def single_drain_def)
  next
    case False
    with a have "awaiting s = []" "aborted s = []" by (simp_all add: single_drain_def)
    with False a show ?thesis using TimerFire
      by (simp add: timer_fire_def Let_def single_drain_process)
  qed
next
  case ClearDLQ
  assume "single_drain s"
  then show ?thesis using ClearDLQ by (simp add: single_drain_def clearDLQ_def)
qed

lemma single_drain_run: "single_drain s \<Longrightarrow> single_drain (run es s)"
  unfolding run_def by (induction es arbitrary: s) (simp_all add: single_drain_step)

lemma drain_cases:
  obtains (idle) "\<forall>x \<in> set q. target x \<notin> handlers s"
      "drain q s = s\<lparr>queue := [], processing := False, dlq := dlq s @ q\<rparr>"
  | (suspend) pre j rest where "q = pre @ j # rest" "\<forall>x \<in> set pre. target x \<notin> handlers s"
      "target j \<in> handlers s"
      "drain q s = s\<lparr>queue := rest, dlq := dlq s @ pre, awaiting := awaiting s @ [j],
                       calls := calls s @ [j]\<rparr>"
  using split_first_handled [of q "handlers s"] drain_unhandled [of q s] drain_append_handled [of _ s]
  by blast

lemma in_withoutD: "x \<in> set (without i xs) \<Longrightarrow> x \<in> set xs"
  by (auto simp: without_def dest: in_set_takeD in_set_dropD)

lemma handled_drain:
  assumes "\<forall>j \<in> set (awaiting s). target j \<in> handlers s"
    and "\<forall>p \<in> set (timers s). target (snd p) \<in> handlers s"
    and "\<forall>j \<in> set q. target j \<notin> handlers s \<longrightarrow> retries j = 0"
  shows "handled (drain q s)"
proof (cases q s rule: drain_cases)
  case idle
  then show ?thesis using assms by (simp add: handled_def)
next
  case (suspend pre j rest)
  then show ?thesis using assms by (simp add: handled_def)
qed

lemma handled_process:
  "handled s \<Longrightarrow> handled (process s)"
proof -
  assume a: "handled s"
  have "handled (drain (queue s) (s\<lparr>processing := True\<rparr>))"
    by (rule handled_drain) (use a in \<open>simp_all add: handled_def\<close>)
  with a show ?thesis by (simp add: process_def while_loop_def)
qed

lemma handled_on_false:
  "handled s \<Longrightarrow> target j \<in> handlers s \<Longrightarrow> handled (on_false j s)"
  by (simp add: handled_def on_false_def Let_def)

lemma handled_while_loop: "handled s \<Longrightarrow> handled (while_loop s)"
  unfolding while_loop_def by (rule handled_drain) (simp_all add: handled_def)

lemma handled_step: "handled s \<Longrightarrow> handled (step e s)"
proof (cases e)
  case (Enqueue jid now msg tgt maxR)
  assume a: "handled s"
  have "handled (s\<lparr>queue := queue s @ [new_job jid now msg tgt maxR]\<rparr>)"
    using a by (simp add: handled_def new_job_def)
  then show ?thesis using Enqueue by (simp add: enqueue_def Let_def handled_process)
next
  case (RegisterHandler t)
  assume "handled s"
  then show ?thesis using RegisterHandler by (simp add: handled_def registerHandler_def)
next
  case (Settle i out)
  assume a: "handled s"
  show ?thesis
  proof (cases "i < length (awaiting s)")
    case True
    let ?s1 = "s\<lparr>awaiting := without i (awaiting s)\<rparr>"
    from True a have t: "target (awaiting s ! i) \<in> handlers ?s1" by (simp add: handled_def)
    from a have h1: "handled ?s1" by (auto simp: handled_def dest: in_withoutD)
    from h1 have "handled (?s1\<lparr>aborted := aborted s @ [TypeError]\<rparr>)" by (simp add: handled_def)
    then show ?thesis using Settle True h1 t
      by (simp add: settle_cases handled_while_loop handled_on_false split: outcome.split bool.split)
  next
    case False
    then show ?thesis using Settle a by (simp add: settle_def)
  qed
next
  case (TimerFire i)
  assume a: "handled s"
  show ?thesis
  proof (cases "i < length (timers s)")
    case True
    then have "timers s ! i \<in> set (timers s)" by simp
    with a have "handled (s\<lparr>timers := without i (timers s), queue := queue s @ [snd (timers s ! i)]\<rparr>)"
      by (auto simp: handled_def dest: in_withoutD)
    then show ?thesis using TimerFire True by (simp add: timer_fire_def Let_def handled_process)
  next
    case False
    then show ?thesis using TimerFire a by (simp add: timer_fire_def)
  qed
next
  case ClearDLQ
  assume "handled s"
  then show ?thesis using ClearDLQ by (simp add: handled_def clearDLQ_def)
qed

lemma handled_run: "handled s \<Longrightarrow> handled (run es s)"
  unfolding run_def by (induction es arbitrary: s) (simp_all add: handled_step)

lemma handled_new_queue: "handled new_queue"
  by (simp add: handled_def new_queue_def)

lemma single_drain_new_queue: "single_drain new_queue"
  by (simp add: single_drain_def new_queue_def)

lemma idle_empty_drain: "processing s \<Longrightarrow> idle_empty (drain q s)"
  by (cases q s rule: drain_cases) (simp_all add: idle_empty_def)

lemma idle_empty_step:
  assumes "single_drain s" "idle_empty s"
  shows "idle_empty (step e s)"
proof (cases e)
  case (Enqueue jid now msg tgt maxR)
  then show ?thesis using assms
    by (simp add: enqueue_def Let_def process_def while_loop_def idle_empty_drain)
      (simp add: idle_empty_def)
next
  case (RegisterHandler t)
  then show ?thesis using assms by (simp add: idle_empty_def registerHandler_def)
next
  case (Settle i out)
  show ?thesis
  proof (cases "i < length (awaiting s)")
    case True
    with assms have "processing s" by (auto simp: single_drain_def)
    then show ?thesis using Settle True
      by (simp add: settle_cases while_loop_def idle_empty_drain split: outcome.split bool.split)
        (simp add: idle_empty_def)
  next
    case False
    then show ?thesis using Settle assms by (simp add: settle_def)
  qed
next
  case (TimerFire i)
  then show ?thesis using assms
    by (simp add: timer_fire_def Let_def process_def while_loop_def idle_empty_drain)
      (simp add: idle_empty_def)
next
  case ClearDLQ
  then show ?thesis using assms by (simp add: idle_empty_def clearDLQ_def)
qed

lemma drain_all_handled:
  "\<forall>j \<in> set q. target j \<in> handlers s \<Longrightarrow>
   drain q s = (case q of [] \<Rightarrow> s\<lparr>queue := [], processing := False\<rparr>
                | j # rest \<Rightarrow> s\<lparr>queue := rest, awaiting := awaiting s @ [j], calls := calls s @ [j]\<rparr>)"
  by (cases q) simp_all

lemma fifo_step:
  assumes "fifo_inv D s" "succeeds (handlers s) e"
  shows "fifo_inv D (step e s) \<and> handlers (step e s) = handlers s \<and>
         calls (step e s) @ queue (step e s) = calls s @ queue s @ enqueued [e]"
proof (cases e)
  case (Enqueue jid now msg tgt maxR)
  show ?thesis
  proof (cases "processing s")
    case True
    then show ?thesis using assms Enqueue
      by (simp add: enqueue_def Let_def fifo_inv_def single_drain_def idle_empty_def new_job_def)
  next
    case False
    with assms have "queue s = []" "awaiting s = []"
      by (simp_all add: fifo_inv_def idle_empty_def single_drain_def)
    then show ?thesis using assms Enqueue False
      by (simp add: enqueue_def Let_def process_def while_loop_def fifo_inv_def single_drain_def
          idle_empty_def new_job_def)
  qed
next
  case (Settle i out)
  show ?thesis
  proof (cases "i < length (awaiting s)")
    case True
    with assms obtain j where j: "awaiting s = [j]" "i = 0" "processing s"
      by (cases "awaiting s") (auto simp: fifo_inv_def single_drain_def)
    from assms have h: "\<forall>j \<in> set (queue s). target j \<in> handlers s" by (simp add: fifo_inv_def)
    show ?thesis using assms Settle j h
      by (cases "queue s")
        (simp_all add: settle_cases while_loop_def fifo_inv_def single_drain_def idle_empty_def)
  next
    case False
    then show ?thesis using Settle assms by (simp add: settle_def)
  qed
qed (use assms in simp_all)

lemma fifo_run:
  "fifo_inv D s \<Longrightarrow> \<forall>e \<in> set es. succeeds (handlers s) e \<Longrightarrow>
   fifo_inv D (run es s) \<and> handlers (run es s) = handlers s \<and>
   calls (run es s) @ queue (run es s) = calls s @ queue s @ enqueued es"
proof (induction es arbitrary: s)
  case Nil
  then show ?case by (simp add: run_def)
next
  case (Cons e es)
  from Cons.prems have st: "fifo_inv D (step e s)" "handlers (step e s) = handlers s"
    "calls (step e s) @ queue (step e s) = calls s @ queue s @ enqueued [e]"
    using fifo_step [of D s e] by simp_all
  from Cons.prems st have "\<forall>e' \<in> set es. succeeds (handlers (step e s)) e'" by simp
  from Cons.IH [OF st(1) this] st have
    "fifo_inv D (run es (step e s))" "handlers (run es (step e s)) = handlers s"
    "calls (run es (step e s)) @ queue (run es (step e s)) = (calls s @ queue s @ enqueued [e]) @ enqueued es"
    by (simp_all del: append_assoc)
  moreover have "run (e # es) s = run es (step e s)" by (simp add: run_def)
  moreover have "enqueued [e] @ enqueued es = enqueued (e # es)" by (cases e) simp_all
  ultimately show ?case by (simp del: enqueued.simps)
qed

lemma retired_drain:
  assumes "jid \<notin> jobId ` set q" "jid \<notin> jobId ` set (awaiting s)"
    "jid \<notin> jobId ` snd ` set (timers s)" "filter (\<lambda>j. jobId j = jid) (calls s) = L"
  shows "retired jid L (drain q s)"
proof (cases q s rule: drain_cases)
  case idle
  then show ?thesis using assms by (auto simp: retired_def live_def)
next
  case (suspend pre j rest)
  then show ?thesis using assms by (auto simp: retired_def live_def)
qed

lemma retired_while_loop: "retired jid L s \<Longrightarrow> retired jid L (while_loop s)"
  unfolding while_loop_def by (rule retired_drain) (auto simp: retired_def live_def)

lemma retired_process: "retired jid L s \<Longrightarrow> retired jid L (process s)"
proof -
  assume a: "retired jid L s"
  have "retired jid L (drain (queue s) (s\<lparr>processing := True\<rparr>))"
    by (rule retired_drain) (use a in \<open>auto simp: retired_def live_def\<close>)
  with a show ?thesis by (simp add: process_def while_loop_def)
qed

lemma retired_step:
  assumes "retired jid L s" "\<not> enqueues_id jid e"
  shows "retired jid L (step e s)"
proof (cases e)
  case (Enqueue jid' now msg tgt maxR)
  with assms have "jid' \<noteq> jid" by simp
  with assms have "retired jid L (s\<lparr>queue := queue s @ [new_job jid' now msg tgt maxR]\<rparr>)"
    by (auto simp: retired_def live_def new_job_def)
  then show ?thesis using Enqueue by (simp add: enqueue_def Let_def retired_process)
next
  case (RegisterHandler t)
  then show ?thesis using assms by (simp add: retired_def live_def registerHandler_def)
next
  case (Settle i out)
  show ?thesis
  proof (cases "i < length (awaiting s)")
    case True
    let ?j = "awaiting s ! i"
    let ?s1 = "s\<lparr>awaiting := without i (awaiting s)\<rparr>"
    from True have "?j \<in> set (awaiting s)" by simp
    with assms have id: "jobId ?j \<noteq> jid" by (auto simp: retired_def live_def)
    from assms have r1: "retired jid L ?s1"
      by (auto simp: retired_def live_def dest: in_withoutD)
    from r1 id have "retired jid L (on_false ?j ?s1)"
      by (auto simp: retired_def live_def on_false_def Let_def)
    moreover from r1 have "retired jid L (?s1\<lparr>aborted := aborted s @ [TypeError]\<rparr>)"
      by (simp add: retired_def live_def)
    ultimately show ?thesis using r1 Settle True
      by (simp add: settle_cases retired_while_loop split: outcome.split bool.split)
  next
    case False
    then show ?thesis using Settle assms by (simp add: settle_def)
  qed
next
  case (TimerFire i)
  show ?thesis
  proof (cases "i < length (timers s)")
    case True
    then have "timers s ! i \<in> set (timers s)" by simp
    with assms have "retired jid L (s\<lparr>timers := without i (timers s), queue := queue s @ [snd (timers s ! i)]\<rparr>)"
      by (auto simp: retired_def live_def dest: in_withoutD)
    then show ?thesis using TimerFire True by (simp add: timer_fire_def Let_def retired_process)
  next
    case False
    then show ?thesis using TimerFire assms by (simp add: timer_fire_def)
  qed
next
  case ClearDLQ
  then show ?thesis using assms by (simp add: retired_def live_def clearDLQ_def)
qed

lemma retired_run:
  "retired jid L s \<Longrightarrow> \<forall>e \<in> set es. \<not> enqueues_id jid e \<Longrightarrow> retired jid L (run es s)"
  unfolding run_def by (induction es arbitrary: s) (simp_all add: retired_step)

lemma drain_timers: "timers (drain q s) = timers s"
  by (induction q arbitrary: s) simp_all

lemma drain_dlq_prefix: "\<exists>more. dlq (drain q s) = dlq s @ more"
  by (cases q s rule: drain_cases) simp_all

lemma fields_registered:
  "queue (foldr registerHandler ts (new_queue :: 'm MemoryQueue)) = []"
  "\<not> processing (foldr registerHandler ts (new_queue :: 'm MemoryQueue))"
  "handlers (foldr registerHandler ts (new_queue :: 'm MemoryQueue)) = set ts"
  "dlq (foldr registerHandler ts (new_queue :: 'm MemoryQueue)) = []"
  "timers (foldr registerHandler ts (new_queue :: 'm MemoryQueue)) = []"
  "awaiting (foldr registerHandler ts (new_queue :: 'm MemoryQueue)) = []"
  "calls (foldr registerHandler ts (new_queue :: 'm MemoryQueue)) = []"
  "aborted (foldr registerHandler ts (new_queue :: 'm MemoryQueue)) = []"
  by (induction ts) (simp_all add: registerHandler_def new_queue_def)


subsection \<open>A handler that throws\<close>

lemma drain_calls_prefix: "\<exists>more. calls (drain q s) = calls s @ more"
  by (cases q s rule: drain_cases) simp_all

lemma throw_same_as_false_unless_nullish:
  "\<not> nullish err \<Longrightarrow>
   on_error err job s = Inr (on_false job s) \<and> settle i (Rejected err) s = settle i (Resolved False) s"
  by (simp add: on_error_cases settle_cases)

lemma nullish_throw_aborts:
  "nullish err \<Longrightarrow> i < length (awaiting s) \<Longrightarrow>
   on_error err job s = Inl TypeError \<and>
   settle i (Rejected err) s = s\<lparr>awaiting := without i (awaiting s), aborted := aborted s @ [TypeError]\<rparr>"
  by (simp add: on_error_cases settle_cases)

lemma stalled_step:
  assumes "aborted s \<noteq> []" "single_drain s"
  shows "aborted (step e s) \<noteq> [] \<and> calls (step e s) = calls s \<and> awaiting (step e s) = []
         \<and> processing (step e s) \<and> single_drain (step e s)"
proof -
  from assms have p: "processing s" "awaiting s = []" by (simp_all add: single_drain_def)
  show ?thesis using assms p
    by (cases e) (simp_all add: enqueue_def Let_def registerHandler_def settle_def clearDLQ_def
        timer_fire_def single_drain_def)
qed

lemma stalled_run:
  "aborted s \<noteq> [] \<Longrightarrow> single_drain s \<Longrightarrow>
   calls (run es s) = calls s \<and> awaiting (run es s) = [] \<and> processing (run es s)"
proof (induction es arbitrary: s)
  case Nil
  then show ?case by (simp add: run_def single_drain_def)
next
  case (Cons e es)
  from stalled_step [OF Cons.prems] Cons.IH [of "step e s"] show ?case by (simp add: run_def)
qed

subsection \<open>Reachable states\<close>

lemma idle_empty_run:
  "single_drain s \<Longrightarrow> idle_empty s \<Longrightarrow> idle_empty (run es s)"
proof (induction es arbitrary: s)
  case Nil
  then show ?case by (simp add: run_def)
next
  case (Cons e es)
  from Cons.prems have "single_drain (step e s)" "idle_empty (step e s)"
    by (simp_all add: single_drain_step idle_empty_step)
  with Cons.IH [of "step e s"] show ?case by (simp add: run_def)
qed

lemma idle_empty_new_queue: "idle_empty new_queue"
  by (simp add: idle_empty_def new_queue_def)

lemma no_abort_step: "\<not> throws_nullish e \<Longrightarrow> aborted s = [] \<Longrightarrow> aborted (step e s) = []"
proof (cases e)
  case (Settle i out)
  assume "\<not> throws_nullish e" "aborted s = []"
  then show ?thesis using Settle
    by (cases out) (simp_all add: settle_cases while_loop_def split: bool.split)
qed (simp_all add: enqueue_def Let_def process_def while_loop_def registerHandler_def
       timer_fire_def clearDLQ_def)

lemma no_abort_run:
  "\<forall>e \<in> set es. \<not> throws_nullish e \<Longrightarrow> aborted s = [] \<Longrightarrow> aborted (run es s) = []"
  unfolding run_def by (induction es arbitrary: s) (simp_all add: no_abort_step)

subsection \<open>Delivery in the order of the calls\<close>

lemma resumed_append: "resumed (es @ fs) s = resumed es s + resumed fs (run es s)"
  by (induction es arbitrary: s) (simp_all add: run_def)

lemma enqueued_append: "enqueued (es @ fs) = enqueued es @ enqueued fs"
  by (induction es rule: enqueued.induct) simp_all

lemma run_append: "run (es @ fs) s = run fs (run es s)"
  by (simp add: run_def)

lemma fifo_count_step:
  assumes "fifo_inv D s" "succeeds (handlers s) e" "fifo_count E k s"
  shows "fifo_count (E @ enqueued [e]) (k + (if resumes e s then 1 else 0)) (step e s)"
proof (cases e)
  case (Enqueue jid now msg tgt maxR)
  show ?thesis
  proof (cases "processing s")
    case True
    with assms have "awaiting s \<noteq> []" by (simp add: fifo_inv_def single_drain_def)
    with assms(3) have "k < length E" by (auto simp: fifo_count_def split: if_splits)
    then show ?thesis using assms True Enqueue
      by (simp add: enqueue_def Let_def fifo_count_def nth_append)
  next
    case False
    with assms have e: "queue s = []" "awaiting s = []"
      by (simp_all add: fifo_inv_def idle_empty_def single_drain_def)
    with assms(3) have "k = length E" by (auto simp: fifo_count_def split: if_splits)
    then show ?thesis using assms Enqueue False e
      by (simp add: enqueue_def Let_def process_def while_loop_def fifo_count_def new_job_def)
  qed
next
  case (Settle i out)
  show ?thesis
  proof (cases "i < length (awaiting s)")
    case True
    with assms obtain j where j: "awaiting s = [j]" "i = 0" "processing s"
      by (cases "awaiting s") (auto simp: fifo_inv_def single_drain_def)
    from assms have h: "\<forall>j \<in> set (queue s). target j \<in> handlers s" by (simp add: fifo_inv_def)
    from j assms(3) have k: "k < length E" by (auto simp: fifo_count_def split: if_splits)
    show ?thesis
    proof (cases "queue s")
      case Nil
      with assms(3) k have "Suc k = length E" by (simp add: fifo_count_def)
      then show ?thesis using assms Settle j Nil
        by (simp add: settle_cases while_loop_def fifo_count_def)
    next
      case (Cons x rest)
      with h have hx: "target x \<in> handlers s" by simp
      have st: "step e s = s\<lparr>queue := rest, awaiting := [x], calls := calls s @ [x]\<rparr>"
        using assms(2) Settle j Cons hx by (simp add: settle_cases while_loop_def)
      from Cons assms(3) have d: "drop (Suc k) E = x # rest" by (simp add: fifo_count_def)
      then have l: "Suc k < length E" by (cases "Suc k < length E") simp_all
      from d l have x: "x = E ! Suc k" "rest = drop (Suc (Suc k)) E"
        by (simp_all add: Cons_nth_drop_Suc [symmetric])
      from l x have t: "take (Suc (Suc k)) E = take (Suc k) E @ [x]"
        by (simp add: take_Suc_conv_app_nth)
      from assms(3) have c: "calls s = take (Suc k) E" by (simp add: fifo_count_def)
      have r: "resumes e s" using Settle True by simp
      show ?thesis unfolding st fifo_count_def using l t c x(2) r Settle x(1) by simp
    qed
  next
    case False
    then show ?thesis using Settle assms by (simp add: settle_def)
  qed
qed (use assms in simp_all)

lemma fifo_count_run:
  "fifo_inv D s \<Longrightarrow> \<forall>e \<in> set es. succeeds (handlers s) e \<Longrightarrow> fifo_count E k s \<Longrightarrow>
   fifo_count (E @ enqueued es) (k + resumed es s) (run es s)"
proof (induction es arbitrary: s E k)
  case Nil
  then show ?case by (simp add: run_def)
next
  case (Cons e es)
  from Cons.prems have st: "fifo_inv D (step e s)" "handlers (step e s) = handlers s"
    using fifo_step [of D s e] by simp_all
  from Cons.prems have c: "fifo_count (E @ enqueued [e]) (k + (if resumes e s then 1 else 0)) (step e s)"
    using fifo_count_step [of D s e E k] by simp
  from Cons.prems st have "\<forall>e' \<in> set es. succeeds (handlers (step e s)) e'" by simp
  from Cons.IH [OF st(1) this c]
  have "fifo_count ((E @ enqueued [e]) @ enqueued es)
          (k + (if resumes e s then 1 else 0) + resumed es (step e s)) (run es (step e s))" .
  moreover have "run (e # es) s = run es (step e s)" by (simp add: run_def)
  moreover have "enqueued [e] @ enqueued es = enqueued (e # es)" by (cases e) simp_all
  ultimately show ?case by (simp del: enqueued.simps add: add.assoc)
qed

subsection \<open>The life of one job\<close>

lemma count_without:
  "i < length xs \<Longrightarrow>
   length (filter P (without i xs)) + (if P (xs ! i) then 1 else 0) = length (filter P xs)"
proof -
  assume a: "i < length xs"
  then have "xs = take i xs @ xs ! i # drop (Suc i) xs" by (rule id_take_nth_drop)
  then have "filter P xs = filter P (take i xs) @ filter P [xs ! i] @ filter P (drop (Suc i) xs)"
    by (metis append_Cons append_Nil filter_append)
  then show ?thesis by (simp add: without_def)
qed

lemma map_without: "map f (without i xs) = without i (map f xs)"
  by (simp add: without_def take_map drop_map)

lemma sole_holder:
  "length (filter P (xs @ x # ys)) \<le> 1 \<Longrightarrow> P x \<Longrightarrow> (\<forall>y \<in> set xs. \<not> P y) \<and> (\<forall>y \<in> set ys. \<not> P y)"
  by (auto simp: filter_empty_conv)

lemma timer_then_queue: "at_timer j0 n p \<Longrightarrow> at_queue j0 n (snd p)"
  by (auto simp: at_timer_def at_queue_def)

lemma await_then_timer:
  "at_await j0 n j \<Longrightarrow> int (retries j) < maxRetries j \<Longrightarrow>
   at_timer j0 n (retryDelay * 2 ^ (retries (j\<lparr>retries := retries j + 1\<rparr>) - 1), j\<lparr>retries := retries j + 1\<rparr>)"
  by (cases n) (auto simp: at_timer_def at_await_def)

lemma await_then_dlq:
  "at_await j0 n j \<Longrightarrow> \<not> int (retries j) < maxRetries j \<Longrightarrow> at_dlq j0 n j"
  by (cases n) (auto simp: at_dlq_def at_await_def)

lemma queue_then_await: "at_queue j0 n j \<Longrightarrow> at_await j0 (Suc n) j"
  by (auto simp: at_queue_def at_await_def)

lemma tracked_move:
  assumes "tracked jid j0 s"
    and "handlers s \<subseteq> handlers s'" and "attempts jid s' = attempts jid s"
    and "length (filter (\<lambda>j. jobId j = jid) (holders s'))
           \<le> length (filter (\<lambda>j. jobId j = jid) (holders s))"
    and "\<And>j. j \<in> set (queue s') \<Longrightarrow> jobId j = jid \<Longrightarrow>
           j \<in> set (queue s) \<or> at_queue j0 (length (attempts jid s)) j"
    and "\<And>j. j \<in> set (awaiting s') \<Longrightarrow> jobId j = jid \<Longrightarrow>
           j \<in> set (awaiting s) \<or> at_await j0 (length (attempts jid s)) j"
    and "\<And>p. p \<in> set (timers s') \<Longrightarrow> jobId (snd p) = jid \<Longrightarrow>
           p \<in> set (timers s) \<or> at_timer j0 (length (attempts jid s)) p"
    and "\<And>j. j \<in> set (dlq s') \<Longrightarrow> jobId j = jid \<Longrightarrow>
           j \<in> set (dlq s) \<or> at_dlq j0 (length (attempts jid s)) j"
  shows "tracked jid j0 s'"
proof -
  note a = assms(3)
  from assms(1) have t: "target j0 \<in> handlers s"
    "attempts jid s = map (\<lambda>r. j0\<lparr>retries := r\<rparr>) [0..<length (attempts jid s)]"
    "length (attempts jid s) \<le> 1 \<or> int (length (attempts jid s)) \<le> maxRetries j0 + 1"
    "length (filter (\<lambda>j. jobId j = jid) (holders s)) \<le> 1"
    "\<forall>j \<in> set (queue s). jobId j = jid \<longrightarrow> at_queue j0 (length (attempts jid s)) j"
    "\<forall>j \<in> set (awaiting s). jobId j = jid \<longrightarrow> at_await j0 (length (attempts jid s)) j"
    "\<forall>p \<in> set (timers s). jobId (snd p) = jid \<longrightarrow> at_timer j0 (length (attempts jid s)) p"
    "\<forall>j \<in> set (dlq s). jobId j = jid \<longrightarrow> at_dlq j0 (length (attempts jid s)) j"
    unfolding tracked_def Let_def by blast+
  have "target j0 \<in> handlers s'" using t(1) assms(2) by blast
  moreover have "length (filter (\<lambda>j. jobId j = jid) (holders s')) \<le> 1"
    using t(4) assms(4) by simp
  moreover have "\<forall>j \<in> set (queue s'). jobId j = jid \<longrightarrow> at_queue j0 (length (attempts jid s)) j"
    using t(5) assms(5) by blast
  moreover have "\<forall>j \<in> set (awaiting s'). jobId j = jid \<longrightarrow> at_await j0 (length (attempts jid s)) j"
    using t(6) assms(6) by blast
  moreover have "\<forall>p \<in> set (timers s'). jobId (snd p) = jid \<longrightarrow> at_timer j0 (length (attempts jid s)) p"
    using t(7) assms(7) by blast
  moreover have "\<forall>j \<in> set (dlq s'). jobId j = jid \<longrightarrow> at_dlq j0 (length (attempts jid s)) j"
    using t(8) assms(8) by blast
  ultimately show ?thesis unfolding tracked_def Let_def a using t(2,3) by blast
qed

lemma holders_count:
  "length (filter P (holders s)) =
     length (filter P (queue s)) + length (filter P (awaiting s)) +
     length (filter P (map snd (timers s))) + length (filter P (dlq s))"
  by (simp add: holders_def)

lemma tracked_handlers:
  "tracked jid j0 s \<Longrightarrow> tracked jid j0 (s\<lparr>handlers := insert t (handlers s)\<rparr>)"
  by (erule tracked_move) (auto simp: holders_def attempts_def)

lemma tracked_clear: "tracked jid j0 s \<Longrightarrow> tracked jid j0 (s\<lparr>dlq := []\<rparr>)"
  by (erule tracked_move) (auto simp: holders_def attempts_def)

lemma tracked_flags:
  "tracked jid j0 (s\<lparr>processing := b\<rparr>) = tracked jid j0 s"
  "tracked jid j0 (s\<lparr>aborted := a\<rparr>) = tracked jid j0 s"
  by (simp_all add: tracked_def attempts_def holders_def Let_def)

lemma tracked_enqueue_other:
  "tracked jid j0 s \<Longrightarrow> jobId j \<noteq> jid \<Longrightarrow> tracked jid j0 (s\<lparr>queue := queue s @ [j]\<rparr>)"
  by (erule tracked_move) (auto simp: holders_def attempts_def)

lemma tracked_drop_awaiting:
  assumes "tracked jid j0 s" "i < length (awaiting s)"
  shows "tracked jid j0 (s\<lparr>awaiting := without i (awaiting s)\<rparr>)"
proof (rule tracked_move [OF assms(1)])
  from count_without [OF assms(2), of "\<lambda>j. jobId j = jid"]
  have "length (filter (\<lambda>j. jobId j = jid) (without i (awaiting s)))
          \<le> length (filter (\<lambda>j. jobId j = jid) (awaiting s))" by simp
  then show "length (filter (\<lambda>j. jobId j = jid) (holders (s\<lparr>awaiting := without i (awaiting s)\<rparr>)))
     \<le> length (filter (\<lambda>j. jobId j = jid) (holders s))"
    by (simp add: holders_count)
qed (auto simp: attempts_def dest: in_withoutD)

lemma tracked_timer_to_queue:
  assumes "tracked jid j0 s" "i < length (timers s)"
  shows "tracked jid j0 (s\<lparr>timers := without i (timers s), queue := queue s @ [snd (timers s ! i)]\<rparr>)"
    (is "tracked jid j0 ?s'")
proof (rule tracked_move [OF assms(1)])
  let ?P = "\<lambda>j. jobId j = jid"
  let ?j = "snd (timers s ! i)"
  from assms(2) have m: "timers s ! i \<in> set (timers s)" by simp
  have c: "length (filter ?P (map snd (without i (timers s)))) + (if ?P ?j then 1 else 0)
        = length (filter ?P (map snd (timers s)))"
    using count_without [of i "map snd (timers s)" ?P] assms(2) by (simp add: map_without)
  then show "length (filter ?P (holders ?s')) \<le> length (filter ?P (holders s))"
    by (simp add: holders_count split: if_splits)
  from assms(1) m have q: "?P ?j \<longrightarrow> at_queue j0 (length (attempts jid s)) ?j"
    by (auto simp: tracked_def Let_def intro: timer_then_queue)
  fix j assume "j \<in> set (queue ?s')" "jobId j = jid"
  with q show "j \<in> set (queue s) \<or> at_queue j0 (length (attempts jid s)) j" by auto
qed (auto simp: attempts_def dest: in_withoutD)

lemma tracked_on_false:
  assumes "tracked jid j0 s" "i < length (awaiting s)"
  shows "tracked jid j0 (on_false (awaiting s ! i) (s\<lparr>awaiting := without i (awaiting s)\<rparr>))"
proof -
  let ?P = "\<lambda>j. jobId j = jid"
  let ?j = "awaiting s ! i"
  let ?j1 = "?j\<lparr>retries := retries ?j + 1\<rparr>"
  let ?d = "retryDelay * 2 ^ (retries ?j1 - 1)"
  from assms(2) have m: "?j \<in> set (awaiting s)" by simp
  have c: "length (filter ?P (without i (awaiting s))) + (if ?P ?j then 1 else 0)
        = length (filter ?P (awaiting s))"
    using count_without [OF assms(2), of ?P] .
  from assms(1) m have a: "?P ?j \<longrightarrow> at_await j0 (length (attempts jid s)) ?j"
    by (auto simp: tracked_def Let_def)
  show ?thesis
  proof (cases "int (retries ?j) < maxRetries ?j")
    case True
    then have e: "on_false ?j (s\<lparr>awaiting := without i (awaiting s)\<rparr>) =
          s\<lparr>awaiting := without i (awaiting s), timers := timers s @ [(?d, ?j1)]\<rparr>"
      by (simp add: on_false_def Let_def)
    from a True have t: "?P ?j \<longrightarrow> at_timer j0 (length (attempts jid s)) (?d, ?j1)"
      using await_then_timer [of j0 _ ?j] by blast
    show ?thesis unfolding e
    proof (rule tracked_move [OF assms(1)])
      show "length (filter ?P (holders (s\<lparr>awaiting := without i (awaiting s), timers := timers s @ [(?d, ?j1)]\<rparr>)))
          \<le> length (filter ?P (holders s))"
        using c by (simp add: holders_count split: if_splits)
      fix p assume "p \<in> set (timers (s\<lparr>awaiting := without i (awaiting s), timers := timers s @ [(?d, ?j1)]\<rparr>))"
        "jobId (snd p) = jid"
      with t show "p \<in> set (timers s) \<or> at_timer j0 (length (attempts jid s)) p" by auto
    qed (auto simp: attempts_def dest: in_withoutD)
  next
    case False
    then have e: "on_false ?j (s\<lparr>awaiting := without i (awaiting s)\<rparr>) =
          s\<lparr>awaiting := without i (awaiting s), dlq := dlq s @ [?j]\<rparr>"
      by (simp add: on_false_def Let_def)
    from a False have t: "?P ?j \<longrightarrow> at_dlq j0 (length (attempts jid s)) ?j"
      using await_then_dlq [of j0 _ ?j] by blast
    show ?thesis unfolding e
    proof (rule tracked_move [OF assms(1)])
      show "length (filter ?P (holders (s\<lparr>awaiting := without i (awaiting s), dlq := dlq s @ [?j]\<rparr>)))
          \<le> length (filter ?P (holders s))"
        using c by (simp add: holders_count split: if_splits)
      fix j assume "j \<in> set (dlq (s\<lparr>awaiting := without i (awaiting s), dlq := dlq s @ [?j]\<rparr>))"
        "jobId j = jid"
      with t show "j \<in> set (dlq s) \<or> at_dlq j0 (length (attempts jid s)) j" by auto
    qed (auto simp: attempts_def dest: in_withoutD)
  qed
qed

lemma tracked_drain:
  assumes "tracked jid j0 s"
  shows "tracked jid j0 (drain (queue s) s)"
proof -
  let ?P = "\<lambda>j. jobId j = jid"
  let ?n = "length (attempts jid s)"
  from assms have t: "target j0 \<in> handlers s"
    "attempts jid s = map (\<lambda>r. j0\<lparr>retries := r\<rparr>) [0..<?n]"
    "length (filter ?P (holders s)) \<le> 1"
    "\<forall>j \<in> set (queue s). jobId j = jid \<longrightarrow> at_queue j0 ?n j"
    unfolding tracked_def Let_def by blast+
  have reg: "target j \<in> handlers s" if "j \<in> set (queue s)" "jobId j = jid" for j
  proof -
    from t(4) that have "j = j0\<lparr>retries := ?n\<rparr>" by (auto simp: at_queue_def)
    then have "target j = target j0" by simp
    with t(1) show ?thesis by simp
  qed
  show ?thesis
  proof (cases "queue s" s rule: drain_cases)
    case idle
    from idle(1) reg have none: "\<forall>j \<in> set (queue s). jobId j \<noteq> jid" by blast
    then have f: "filter ?P (queue s) = []" by (simp add: filter_empty_conv)
    show ?thesis unfolding idle(2)
    proof (rule tracked_move [OF assms])
      show "length (filter ?P (holders (s\<lparr>queue := [], processing := False, dlq := dlq s @ queue s\<rparr>)))
          \<le> length (filter ?P (holders s))"
        by (simp add: holders_count)
      fix j assume "j \<in> set (dlq (s\<lparr>queue := [], processing := False, dlq := dlq s @ queue s\<rparr>))"
        "jobId j = jid"
      with none show "j \<in> set (dlq s) \<or> at_dlq j0 ?n j" by auto
    qed (auto simp: attempts_def)
  next
    case (suspend pre j rest)
    let ?s' = "s\<lparr>queue := rest, dlq := dlq s @ pre, awaiting := awaiting s @ [j], calls := calls s @ [j]\<rparr>"
    from suspend(1,2) reg have pre: "\<forall>x \<in> set pre. jobId x \<noteq> jid" by auto
    then have fp: "filter ?P pre = []" by (simp add: filter_empty_conv)
    have cnt: "length (filter ?P (holders ?s')) = length (filter ?P (holders s))"
      using suspend(1) by (simp add: holders_count)
    show ?thesis unfolding suspend(4)
    proof (cases "?P j")
      case False
      show "tracked jid j0 ?s'"
      proof (rule tracked_move [OF assms])
        show "attempts jid ?s' = attempts jid s" using False by (simp add: attempts_def)
        show "length (filter ?P (holders ?s')) \<le> length (filter ?P (holders s))"
          using cnt by simp
        fix x assume "x \<in> set (dlq ?s')" "jobId x = jid"
        with pre show "x \<in> set (dlq s) \<or> at_dlq j0 ?n x" by auto
      next
        fix x assume "x \<in> set (awaiting ?s')" "jobId x = jid"
        with False show "x \<in> set (awaiting s) \<or> at_await j0 ?n x" by auto
      next
        fix x assume "x \<in> set (queue ?s')" "jobId x = jid"
        with suspend(1) show "x \<in> set (queue s) \<or> at_queue j0 ?n x" by auto
      qed auto
    next
      case True
      from suspend(1) have jq: "j \<in> set (queue s)" by simp
      with t(4) True have aq: "at_queue j0 ?n j" by blast
      then have j: "j = j0\<lparr>retries := ?n\<rparr>" "?n = 0 \<or> int ?n \<le> maxRetries j0"
        by (simp_all add: at_queue_def)
      have h: "holders s = pre @ j # (rest @ awaiting s @ map snd (timers s) @ dlq s)"
        using suspend(1) by (simp add: holders_def)
      from sole_holder [of ?P pre j "rest @ awaiting s @ map snd (timers s) @ dlq s"] t(3) True
      have others: "\<forall>y \<in> set (rest @ awaiting s @ map snd (timers s) @ dlq s). jobId y \<noteq> jid"
        unfolding h by blast
      have a: "attempts jid ?s' = attempts jid s @ [j]" using True by (simp add: attempts_def)
      have l: "length (attempts jid ?s') = Suc ?n" unfolding a by simp
      have m: "attempts jid ?s' = map (\<lambda>r. j0\<lparr>retries := r\<rparr>) [0..<Suc ?n]"
        unfolding a using t(2) j(1) by simp
      have b: "Suc ?n \<le> 1 \<or> int (Suc ?n) \<le> maxRetries j0 + 1" using j(2) by auto
      have c: "length (filter ?P (holders ?s')) \<le> 1" using cnt t(3) by simp
      have q: "\<forall>x \<in> set (queue ?s'). jobId x = jid \<longrightarrow> at_queue j0 (Suc ?n) x"
        using others by simp
      have w: "\<forall>x \<in> set (awaiting ?s'). jobId x = jid \<longrightarrow> at_await j0 (Suc ?n) x"
        using others queue_then_await [OF aq] by auto
      have ti: "\<forall>p \<in> set (timers ?s'). jobId (snd p) = jid \<longrightarrow> at_timer j0 (Suc ?n) p"
        using others by simp
      have d: "\<forall>x \<in> set (dlq ?s'). jobId x = jid \<longrightarrow> at_dlq j0 (Suc ?n) x"
        using others pre by auto
      have hh: "target j0 \<in> handlers ?s'" using t(1) by simp
      show "tracked jid j0 ?s'"
        unfolding tracked_def Let_def l using hh m b c q w ti d unfolding l by blast
    qed
  qed
qed

lemma tracked_while_loop: "tracked jid j0 s \<Longrightarrow> tracked jid j0 (while_loop s)"
  unfolding while_loop_def by (rule tracked_drain)

lemma tracked_process: "tracked jid j0 s \<Longrightarrow> tracked jid j0 (process s)"
proof -
  assume a: "tracked jid j0 s"
  then have "tracked jid j0 (s\<lparr>processing := True\<rparr>)" by (simp add: tracked_flags)
  from tracked_drain [OF this] a show ?thesis by (simp add: process_def while_loop_def)
qed

lemma tracked_step:
  assumes "tracked jid j0 s" "\<not> enqueues_id jid e"
  shows "tracked jid j0 (step e s)"
proof (cases e)
  case (Enqueue jid' now msg tgt maxR)
  with assms have "jobId (new_job jid' now msg tgt maxR) \<noteq> jid" by (simp add: new_job_def)
  from tracked_enqueue_other [OF assms(1) this] show ?thesis using Enqueue
    by (simp add: enqueue_def Let_def tracked_process)
next
  case (RegisterHandler t)
  then show ?thesis using assms by (simp add: registerHandler_def tracked_handlers)
next
  case (Settle i out)
  show ?thesis
  proof (cases "i < length (awaiting s)")
    case True
    note d = tracked_drop_awaiting [OF assms(1) True]
    note f = tracked_on_false [OF assms(1) True]
    from d have "tracked jid j0 (s\<lparr>awaiting := without i (awaiting s), aborted := aborted s @ [TypeError]\<rparr>)"
      by (simp add: tracked_flags)
    with d f show ?thesis using Settle True
      by (simp add: settle_cases tracked_while_loop split: outcome.split bool.split)
  next
    case False
    then show ?thesis using Settle assms by (simp add: settle_def)
  qed
next
  case (TimerFire i)
  show ?thesis
  proof (cases "i < length (timers s)")
    case True
    from tracked_timer_to_queue [OF assms(1) True] show ?thesis using TimerFire True
      by (simp add: timer_fire_def Let_def tracked_process)
  next
    case False
    then show ?thesis using TimerFire assms by (simp add: timer_fire_def)
  qed
next
  case ClearDLQ
  then show ?thesis using assms by (simp add: clearDLQ_def tracked_clear)
qed

lemma tracked_run:
  "tracked jid j0 s \<Longrightarrow> \<forall>e \<in> set es. \<not> enqueues_id jid e \<Longrightarrow> tracked jid j0 (run es s)"
  unfolding run_def by (induction es arbitrary: s) (simp_all add: tracked_step)

lemma known_drain: "known (drain q (s\<lparr>queue := q\<rparr>)) \<subseteq> known (s\<lparr>queue := q\<rparr>)"
  by (cases q "s\<lparr>queue := q\<rparr>" rule: drain_cases) (auto simp: known_def holders_def)

lemma known_while_loop: "known (while_loop s) \<subseteq> known s"
  using known_drain [of "queue s" s] by (simp add: while_loop_def)

lemma known_flags [simp]:
  "known (s\<lparr>processing := b\<rparr>) = known s" "known (s\<lparr>aborted := a\<rparr>) = known s"
  by (simp_all add: known_def holders_def)

lemma known_process: "known (process s) \<subseteq> known s"
  using known_while_loop [of "s\<lparr>processing := True\<rparr>"] by (simp add: process_def)

lemma known_on_false: "known (on_false j s) \<subseteq> insert (jobId j) (known s)"
  by (auto simp: known_def holders_def on_false_def Let_def)

lemma known_step: "known (step e s) \<subseteq> known s \<union> {jid. enqueues_id jid e}"
proof (cases e)
  case (Enqueue jid' now msg tgt maxR)
  have "known (s\<lparr>queue := queue s @ [new_job jid' now msg tgt maxR]\<rparr>) \<subseteq> insert jid' (known s)"
    by (auto simp: known_def holders_def new_job_def)
  with known_process [of "s\<lparr>queue := queue s @ [new_job jid' now msg tgt maxR]\<rparr>"]
  show ?thesis using Enqueue by (auto simp: enqueue_def Let_def)
next
  case (RegisterHandler t)
  then show ?thesis by (simp add: registerHandler_def known_def holders_def)
next
  case (Settle i out)
  show ?thesis
  proof (cases "i < length (awaiting s)")
    case True
    let ?s1 = "s\<lparr>awaiting := without i (awaiting s)\<rparr>"
    have a: "known ?s1 \<subseteq> known s" by (auto simp: known_def holders_def dest: in_withoutD)
    from True have "awaiting s ! i \<in> set (awaiting s)" by simp
    then have "jobId (awaiting s ! i) \<in> known s" by (auto simp: known_def holders_def)
    with known_on_false [of "awaiting s ! i" ?s1] a
    have b: "known (on_false (awaiting s ! i) ?s1) \<subseteq> known s" by auto
    from a b known_while_loop [of ?s1] known_while_loop [of "on_false (awaiting s ! i) ?s1"]
    show ?thesis using Settle True
      by (auto simp: settle_cases split: outcome.split bool.split)
  next
    case False
    then show ?thesis using Settle by (simp add: settle_def)
  qed
next
  case (TimerFire i)
  show ?thesis
  proof (cases "i < length (timers s)")
    case True
    let ?s1 = "s\<lparr>timers := without i (timers s), queue := queue s @ [snd (timers s ! i)]\<rparr>"
    from True have "timers s ! i \<in> set (timers s)" by simp
    then have "known ?s1 \<subseteq> known s"
      by (auto simp: known_def holders_def dest: in_withoutD)
    with known_process [of ?s1] show ?thesis using TimerFire True
      by (auto simp: timer_fire_def Let_def)
  next
    case False
    then show ?thesis using TimerFire by (simp add: timer_fire_def)
  qed
next
  case ClearDLQ
  then show ?thesis by (auto simp: clearDLQ_def known_def holders_def)
qed

lemma known_run:
  "\<forall>e \<in> set es. \<not> enqueues_id jid e \<Longrightarrow> jid \<notin> known s \<Longrightarrow> jid \<notin> known (run es s)"
proof (induction es arbitrary: s)
  case Nil
  then show ?case by (simp add: run_def)
next
  case (Cons e es)
  from Cons.prems known_step [of e s] have "jid \<notin> known (step e s)" by auto
  with Cons.IH [of "step e s"] Cons.prems show ?case by (simp add: run_def)
qed

lemma tracked_queued_new:
  assumes "jid \<notin> known s" "tgt \<in> handlers s"
  shows "tracked jid (new_job jid now msg tgt maxR)
           (s\<lparr>queue := queue s @ [new_job jid now msg tgt maxR]\<rparr>)"
proof -
  let ?j0 = "new_job jid now msg tgt maxR"
  let ?s1 = "s\<lparr>queue := queue s @ [?j0]\<rparr>"
  have j0: "?j0\<lparr>retries := 0\<rparr> = ?j0" "jobId ?j0 = jid" "target ?j0 = tgt"
    by (simp_all add: new_job_def)
  from assms(1) have none: "\<forall>j \<in> set (holders s) \<union> set (calls s). jobId j \<noteq> jid"
    by (auto simp: known_def)
  then have f: "filter (\<lambda>j. jobId j = jid) (holders s) = []" "filter (\<lambda>j. jobId j = jid) (calls s) = []"
    by (simp_all add: filter_empty_conv)
  then have a: "attempts jid ?s1 = []" by (simp add: attempts_def)
  have c: "length (filter (\<lambda>j. jobId j = jid) (holders ?s1)) \<le> 1"
    using f(1) j0(2) by (simp add: holders_def)
  have q: "\<forall>j \<in> set (queue ?s1). jobId j = jid \<longrightarrow> at_queue ?j0 0 j"
    using none j0(1) by (auto simp: holders_def at_queue_def)
  have o: "\<forall>j \<in> set (awaiting ?s1). jobId j \<noteq> jid" "\<forall>p \<in> set (timers ?s1). jobId (snd p) \<noteq> jid"
    "\<forall>j \<in> set (dlq ?s1). jobId j \<noteq> jid"
    using none by (auto simp: holders_def)
  show "tracked jid ?j0 ?s1"
    unfolding tracked_def Let_def a using assms(2) j0(3) c q o by simp
qed

lemma tracked_enqueue_new:
  assumes "jid \<notin> known s" "tgt \<in> handlers s"
  shows "tracked jid (new_job jid now msg tgt maxR) (enqueue jid now msg tgt maxR s)"
  using tracked_queued_new [OF assms] by (simp add: enqueue_def Let_def tracked_process)

lemma known_new_queue: "known new_queue = {}"
  by (simp add: known_def holders_def new_queue_def)

lemma tracked_reached:
  assumes "\<forall>e \<in> set es1 \<union> set es2. \<not> enqueues_id jid e"
    and "tgt \<in> handlers (run es1 new_queue)"
  shows "tracked jid (new_job jid now msg tgt maxR)
           (run (es1 @ Enqueue jid now msg tgt maxR # es2) new_queue)"
proof -
  from assms(1) have "jid \<notin> known (run es1 new_queue)"
    using known_run [of es1 jid new_queue] by (simp add: known_new_queue)
  from tracked_enqueue_new [OF this assms(2)]
  have "tracked jid (new_job jid now msg tgt maxR) (step (Enqueue jid now msg tgt maxR) (run es1 new_queue))"
    by simp
  from tracked_run [OF this, of es2] assms(1) show ?thesis by (simp add: run_def)
qed

lemma not_live_if_dead:
  assumes "length (filter (\<lambda>j. jobId j = jid) (holders s)) \<le> 1" "j \<in> set (dlq s)" "jobId j = jid"
  shows "jid \<notin> jobId ` live s"
proof -
  from assms(2) obtain xs ys where d: "dlq s = xs @ j # ys" by (auto simp: in_set_conv_decomp)
  have h: "holders s = (queue s @ awaiting s @ map snd (timers s) @ xs) @ j # ys"
    by (simp add: holders_def d)
  from sole_holder [of "\<lambda>j. jobId j = jid" "queue s @ awaiting s @ map snd (timers s) @ xs" j ys]
    assms(1,3)
  have "\<forall>y \<in> set (queue s @ awaiting s @ map snd (timers s) @ xs). jobId y \<noteq> jid"
    unfolding h by blast
  then show ?thesis by (auto simp: live_def)
qed

lemma not_dead_if_timer:
  assumes "length (filter (\<lambda>j. jobId j = jid) (holders s)) \<le> 1" "p \<in> set (timers s)"
    "jobId (snd p) = jid"
  shows "jid \<notin> jobId ` set (dlq s)"
proof -
  from assms(2) obtain xs ys where d: "timers s = xs @ p # ys" by (auto simp: in_set_conv_decomp)
  have h: "holders s = (queue s @ awaiting s @ map snd xs) @ snd p # (map snd ys @ dlq s)"
    by (simp add: holders_def d)
  from sole_holder [of "\<lambda>j. jobId j = jid" "queue s @ awaiting s @ map snd xs" "snd p" "map snd ys @ dlq s"]
    assms(1,3)
  have "\<forall>y \<in> set (map snd ys @ dlq s). jobId y \<noteq> jid"
    unfolding h by blast
  then show ?thesis by auto
qed

subsection \<open>A job that keeps failing is never lost\<close>

lemma always_fails_append:
  "always_fails jid (es @ fs) s \<longleftrightarrow> always_fails jid es s \<and> always_fails jid fs (run es s)"
  by (induction es arbitrary: s) (simp_all add: run_def)

lemma calls_step: "\<exists>more. calls (step e s) = calls s @ more"
proof (cases e)
  case (Enqueue jid now msg tgt maxR)
  from drain_calls_prefix [of "queue s @ [new_job jid now msg tgt maxR]"
      "s\<lparr>queue := queue s @ [new_job jid now msg tgt maxR], processing := True\<rparr>"]
  show ?thesis using Enqueue by (auto simp: enqueue_def Let_def process_def while_loop_def)
next
  case (Settle i out)
  from drain_calls_prefix [of "queue s" "s\<lparr>awaiting := without i (awaiting s)\<rparr>"]
    drain_calls_prefix [of "queue s" "on_false (awaiting s ! i) (s\<lparr>awaiting := without i (awaiting s)\<rparr>)"]
  show ?thesis using Settle
    by (auto simp: settle_cases while_loop_def split: outcome.split bool.split)
next
  case (TimerFire i)
  from drain_calls_prefix [of "queue s @ [snd (timers s ! i)]"
      "s\<lparr>timers := without i (timers s), queue := queue s @ [snd (timers s ! i)], processing := True\<rparr>"]
  show ?thesis using TimerFire by (auto simp: timer_fire_def Let_def process_def while_loop_def)
qed (simp_all add: registerHandler_def clearDLQ_def)

lemma attempts_step: "length (attempts jid s) \<le> length (attempts jid (step e s))"
proof -
  from calls_step [of e s] obtain more where "calls (step e s) = calls s @ more" by blast
  then show ?thesis by (simp add: attempts_def)
qed

lemma live_drain:
  assumes "tracked jid j0 s" "jid \<in> jobId ` live s"
  shows "jid \<in> jobId ` live (drain (queue s) s)"
proof -
  from assms(1) have t: "target j0 \<in> handlers s"
    "\<forall>j \<in> set (queue s). jobId j = jid \<longrightarrow> at_queue j0 (length (attempts jid s)) j"
    unfolding tracked_def Let_def by blast+
  have reg: "target j \<in> handlers s" if "j \<in> set (queue s)" "jobId j = jid" for j
  proof -
    from t(2) that have "j = j0\<lparr>retries := length (attempts jid s)\<rparr>" by (auto simp: at_queue_def)
    then have "target j = target j0" by simp
    with t(1) show ?thesis by simp
  qed
  show ?thesis
  proof (cases "queue s" s rule: drain_cases)
    case idle
    with reg have "\<forall>j \<in> set (queue s). jobId j \<noteq> jid" by blast
    with assms(2) show ?thesis unfolding idle(2) by (auto simp: live_def)
  next
    case (suspend pre j rest)
    with reg have "\<forall>x \<in> set pre. jobId x \<noteq> jid" by auto
    with assms(2) suspend(1) show ?thesis unfolding suspend(4) by (auto simp: live_def)
  qed
qed

lemma live_while_loop:
  "tracked jid j0 s \<Longrightarrow> jid \<in> jobId ` live s \<Longrightarrow> jid \<in> jobId ` live (while_loop s)"
  unfolding while_loop_def by (rule live_drain)

lemma live_process:
  assumes "tracked jid j0 s" "jid \<in> jobId ` live s"
  shows "jid \<in> jobId ` live (process s)"
proof -
  from assms(1) have "tracked jid j0 (s\<lparr>processing := True\<rparr>)" by (simp add: tracked_flags)
  moreover from assms(2) have "jid \<in> jobId ` live (s\<lparr>processing := True\<rparr>)" by (simp add: live_def)
  ultimately have "jid \<in> jobId ` live (drain (queue s) (s\<lparr>processing := True\<rparr>))"
    using live_drain [of jid j0 "s\<lparr>processing := True\<rparr>"] by simp
  with assms(2) show ?thesis by (simp add: process_def while_loop_def)
qed

lemma in_without_or: "i < length xs \<Longrightarrow> x \<in> set xs \<Longrightarrow> x = xs ! i \<or> x \<in> set (without i xs)"
proof -
  assume a: "i < length xs" "x \<in> set xs"
  from a(1) have e: "xs = take i xs @ xs ! i # drop (Suc i) xs" by (rule id_take_nth_drop)
  from a(2) have "x \<in> set (take i xs @ xs ! i # drop (Suc i) xs)" by (simp only: e [symmetric])
  then show ?thesis by (auto simp: without_def)
qed

lemma live_on_false: "jid \<in> jobId ` live s \<Longrightarrow> jid \<in> jobId ` live (on_false x s)"
  by (auto simp: live_def on_false_def Let_def)

lemma tracked_bound:
  "tracked jid j0 s \<Longrightarrow> maxRetries j0 = 3 \<Longrightarrow> length (attempts jid s) \<le> 4"
  unfolding tracked_def Let_def by auto

lemma survives_step:
  assumes tr: "tracked jid j0 s" and ne: "\<not> enqueues_id jid e" and mx: "maxRetries j0 = 3"
    and f: "fails_if_for jid e s" and l: "jid \<in> jobId ` live s"
  shows "jid \<in> jobId ` live (step e s) \<or> length (attempts jid (step e s)) = 4"
proof (cases e)
  case (Enqueue jid' now msg tgt maxR)
  let ?s1 = "s\<lparr>queue := queue s @ [new_job jid' now msg tgt maxR]\<rparr>"
  from ne Enqueue have "jobId (new_job jid' now msg tgt maxR) \<noteq> jid" by (simp add: new_job_def)
  from tracked_enqueue_other [OF tr this] have t1: "tracked jid j0 ?s1" .
  from l have l1: "jid \<in> jobId ` live ?s1" by (auto simp: live_def)
  from live_process [OF t1 l1] l1 show ?thesis using Enqueue by (simp add: enqueue_def Let_def)
next
  case (RegisterHandler t)
  with l show ?thesis by (simp add: registerHandler_def live_def)
next
  case ClearDLQ
  with l show ?thesis by (simp add: clearDLQ_def live_def)
next
  case (TimerFire i)
  show ?thesis
  proof (cases "i < length (timers s)")
    case True
    let ?s1 = "s\<lparr>timers := without i (timers s), queue := queue s @ [snd (timers s ! i)]\<rparr>"
    from tracked_timer_to_queue [OF tr True] have t1: "tracked jid j0 ?s1" .
    from l obtain j where j: "jobId j = jid" "j \<in> live s" by auto
    have "j \<in> live ?s1"
    proof -
      from j(2) consider "j \<in> set (queue s)" | "j \<in> set (awaiting s)" | "j \<in> snd ` set (timers s)"
        by (auto simp: live_def)
      then show ?thesis
      proof cases
        case 3
        then obtain p where p: "p \<in> set (timers s)" "j = snd p" by auto
        from in_without_or [OF True p(1)] p(2) show ?thesis by (auto simp: live_def)
      qed (simp_all add: live_def)
    qed
    with j(1) have l1: "jid \<in> jobId ` live ?s1" by auto
    from live_process [OF t1 l1] l1 show ?thesis using TimerFire True
      by (simp add: timer_fire_def Let_def)
  next
    case False
    with l show ?thesis using TimerFire by (simp add: timer_fire_def)
  qed
next
  case (Settle i out)
  show ?thesis
  proof (cases "i < length (awaiting s)")
    case False
    with l show ?thesis using Settle by (simp add: settle_def)
  next
    case True
    let ?x = "awaiting s ! i"
    let ?s1 = "s\<lparr>awaiting := without i (awaiting s)\<rparr>"
    let ?s2 = "on_false ?x ?s1"
    note t1 = tracked_drop_awaiting [OF tr True]
    note t2 = tracked_on_false [OF tr True]
    show ?thesis
    proof (cases "jobId ?x = jid")
      case same: True
      with f Settle True have out: "out = Resolved False" by simp
      then have st: "step e s = while_loop ?s2" using Settle True by (simp add: settle_cases)
      from True have "?x \<in> set (awaiting s)" by simp
      with tr same have a: "0 < length (attempts jid s)"
        "?x = j0\<lparr>retries := length (attempts jid s) - 1\<rparr>"
        unfolding tracked_def Let_def by (auto simp: at_await_def)
      show ?thesis
      proof (cases "int (retries ?x) < maxRetries ?x")
        case True
        then have "timers ?s2 = timers s @ [(retryDelay * 2 ^ (retries (?x\<lparr>retries := retries ?x + 1\<rparr>) - 1),
            ?x\<lparr>retries := retries ?x + 1\<rparr>)]"
          by (simp add: on_false_def Let_def)
        then have "?x\<lparr>retries := retries ?x + 1\<rparr> \<in> snd ` set (timers ?s2)"
          by (simp add: image_iff)
        then have "?x\<lparr>retries := retries ?x + 1\<rparr> \<in> live ?s2" by (simp add: live_def)
        then have "jobId (?x\<lparr>retries := retries ?x + 1\<rparr>) \<in> jobId ` live ?s2" by (rule imageI)
        with same have "jid \<in> jobId ` live ?s2" by simp
        from live_while_loop [OF t2 this] show ?thesis unfolding st by simp
      next
        case False
        with a mx have "4 \<le> length (attempts jid s)" by (cases "length (attempts jid s)") auto
        moreover have "length (attempts jid s) \<le> length (attempts jid (step e s))"
          by (rule attempts_step)
        moreover have "length (attempts jid (step e s)) \<le> 4"
          by (rule tracked_bound [OF tracked_step [OF tr ne] mx])
        ultimately show ?thesis by simp
      qed
    next
      case other: False
      from l obtain j where j: "jobId j = jid" "j \<in> live s" by auto
      have "j \<in> live ?s1"
      proof -
        from j(2) consider "j \<in> set (queue s)" | "j \<in> set (awaiting s)" | "j \<in> snd ` set (timers s)"
          by (auto simp: live_def)
        then show ?thesis
        proof cases
          case 2
          from in_without_or [OF True 2] other j(1) show ?thesis by (auto simp: live_def)
        qed (auto simp: live_def)
      qed
      with j(1) have l1: "jid \<in> jobId ` live ?s1" by auto
      then have l2: "jid \<in> jobId ` live ?s2" by (rule live_on_false)
      from l1 have l3: "jid \<in> jobId ` live (?s1\<lparr>aborted := aborted s @ [TypeError]\<rparr>)"
        by (simp add: live_def)
      from live_while_loop [OF t1 l1] live_while_loop [OF t2 l2] l3
      show ?thesis using Settle True
        by (simp add: settle_cases split: outcome.split bool.split)
    qed
  qed
qed

lemma survives_run:
  assumes "tracked jid j0 s" "maxRetries j0 = 3" "\<forall>e \<in> set es. \<not> enqueues_id jid e"
    "always_fails jid es s"
    "jid \<in> jobId ` live s \<or> length (attempts jid s) = 4"
  shows "jid \<in> jobId ` live (run es s) \<or> length (attempts jid (run es s)) = 4"
  using assms
proof (induction es arbitrary: s)
  case Nil
  then show ?case by (simp add: run_def)
next
  case (Cons e es)
  from Cons.prems have ne: "\<not> enqueues_id jid e" and f: "fails_if_for jid e s" by simp_all
  note t' = tracked_step [OF Cons.prems(1) ne]
  have "jid \<in> jobId ` live (step e s) \<or> length (attempts jid (step e s)) = 4"
  proof (cases "jid \<in> jobId ` live s")
    case True
    from survives_step [OF Cons.prems(1) ne Cons.prems(2) f True] show ?thesis .
  next
    case False
    with Cons.prems(5) have "4 = length (attempts jid s)" by simp
    also have "\<dots> \<le> length (attempts jid (step e s))" by (rule attempts_step)
    finally have "4 \<le> length (attempts jid (step e s))" .
    moreover have "length (attempts jid (step e s)) \<le> 4" by (rule tracked_bound [OF t' Cons.prems(2)])
    ultimately show ?thesis by simp
  qed
  from Cons.IH [OF t' Cons.prems(2) _ _ this] Cons.prems(3,4) show ?case by (simp add: run_def)
qed

lemma first_handled_split:
  assumes "pre @ j # rest = pre2 @ y # rest2" "\<forall>x \<in> set pre2. \<not> H x" "H j"
  shows "(pre2 = pre \<and> y = j \<and> rest2 = rest) \<or>
         (\<exists>mid. pre = pre2 @ y # mid \<and> rest2 = mid @ j # rest)"
proof -
  from assms(1) obtain us where
    "(pre = pre2 @ us \<and> us @ j # rest = y # rest2) \<or> (pre @ us = pre2 \<and> j # rest = us @ y # rest2)"
    by (auto simp: append_eq_append_conv2)
  then show ?thesis
  proof
    assume a: "pre = pre2 @ us \<and> us @ j # rest = y # rest2"
    show ?thesis
    proof (cases us)
      case Nil
      with a show ?thesis by simp
    next
      case (Cons u us')
      with a have "pre = pre2 @ y # us' \<and> rest2 = us' @ j # rest" by simp
      then show ?thesis by blast
    qed
  next
    assume a: "pre @ us = pre2 \<and> j # rest = us @ y # rest2"
    show ?thesis
    proof (cases us)
      case Nil
      with a show ?thesis by simp
    next
      case (Cons u us')
      with a have "j \<in> set pre2" by auto
      with assms(2,3) show ?thesis by blast
    qed
  qed
qed

lemma queue_progress:
  assumes sd: "single_drain s" and tr: "tracked jid j0 s" and i: "i < length (awaiting s)"
    and q: "queue s = pre @ j # rest" and id: "jobId j = jid"
  shows "(awaiting (settle i (Resolved b) s) = [j] \<and> calls (settle i (Resolved b) s) = calls s @ [j] \<and>
          queue (settle i (Resolved b) s) = rest) \<or>
         (\<exists>pre'. queue (settle i (Resolved b) s) = pre' @ j # rest \<and> length pre' < length pre)"
proof -
  let ?s1 = "s\<lparr>awaiting := without i (awaiting s)\<rparr>"
  let ?s2 = "if b then ?s1 else on_false (awaiting s ! i) ?s1"
  from sd i obtain x where x: "awaiting s = [x]" "i = 0"
    by (cases "awaiting s") (auto simp: single_drain_def)
  have st: "settle i (Resolved b) s = drain (queue s) ?s2"
    using i by (simp add: settle_cases while_loop_def)
  have f: "awaiting ?s2 = []" "calls ?s2 = calls s" "handlers ?s2 = handlers s"
    using x by simp_all
  from tr q id have "at_queue j0 (length (attempts jid s)) j" "target j0 \<in> handlers s"
    unfolding tracked_def Let_def by auto
  then have hj: "target j \<in> handlers ?s2" using f(3) by (auto simp: at_queue_def)
  show ?thesis
  proof (cases "queue s" ?s2 rule: drain_cases)
    case idle
    with q hj show ?thesis by simp
  next
    case (suspend pre2 y rest2)
    from first_handled_split [of pre j rest pre2 y rest2 "\<lambda>x. target x \<in> handlers ?s2"]
      suspend(1,2) q hj
    consider "pre2 = pre \<and> y = j \<and> rest2 = rest"
      | mid where "pre = pre2 @ y # mid" "rest2 = mid @ j # rest"
      by auto
    then show ?thesis
    proof cases
      case 1
      then show ?thesis unfolding st suspend(4) using f by simp
    next
      case 2
      then have "queue (settle i (Resolved b) s) = mid @ j # rest \<and> length mid < length pre"
        unfolding st suspend(4) by simp
      then show ?thesis by blast
    qed
  qed
qed

lemma live_enqueue_new:
  assumes "jid \<notin> known s" "tgt \<in> handlers s"
  shows "jid \<in> jobId ` live (enqueue jid now msg tgt maxR s)"
proof -
  let ?s1 = "s\<lparr>queue := queue s @ [new_job jid now msg tgt maxR]\<rparr>"
  have "new_job jid now msg tgt maxR \<in> live ?s1" by (simp add: live_def)
  then have "jobId (new_job jid now msg tgt maxR) \<in> jobId ` live ?s1" by (rule imageI)
  then have l: "jid \<in> jobId ` live ?s1" by (simp add: new_job_def)
  from live_process [OF tracked_queued_new [OF assms] l] l
  show ?thesis by (simp add: enqueue_def Let_def)
qed

subsection \<open>The claims about the queue\<close>

text \<open>
  Claim C8. The \<open>catch\<close> block and the \<open>!success\<close> branch do the same to a job for
  every thrown value but \<open>undefined\<close> and \<open>null\<close>. For a handler that rejects with
  \<open>undefined\<close> they differ: after two jobs were enqueued and the first has failed, a
  \<open>false\<close> gives the first job a timer of 1000 milliseconds and hands the second job to
  its handler; a rejection with \<open>undefined\<close> ends the activation with a \<open>TypeError\<close>,
  sets no timer, puts the job in no queue, leaves the second job in the queue and
  \<open>processing\<close> set, and a later \<open>enqueue\<close> only appends to the queue.
\<close>

theorem rejection_with_undefined_differs_from_false:
  "run [RegisterHandler ''mail'', Enqueue ''a'' 1 () ''mail'' None, Enqueue ''b'' 2 () ''mail'' None,
        Settle 0 (Resolved False)] new_queue =
     \<lparr>queue = [], processing = True, handlers = {''mail''}, dlq = [],
      timers = [(1000, (new_job ''a'' 1 () ''mail'' None)\<lparr>retries := 1\<rparr>)],
      awaiting = [new_job ''b'' 2 () ''mail'' None],
      calls = [new_job ''a'' 1 () ''mail'' None, new_job ''b'' 2 () ''mail'' None], aborted = []\<rparr> \<and>
   run [RegisterHandler ''mail'', Enqueue ''a'' 1 () ''mail'' None, Enqueue ''b'' 2 () ''mail'' None,
        Settle 0 (Rejected JUndefined)] new_queue =
     \<lparr>queue = [new_job ''b'' 2 () ''mail'' None], processing = True, handlers = {''mail''}, dlq = [],
      timers = [], awaiting = [], calls = [new_job ''a'' 1 () ''mail'' None], aborted = [TypeError]\<rparr> \<and>
   run [RegisterHandler ''mail'', Enqueue ''a'' 1 () ''mail'' None, Enqueue ''b'' 2 () ''mail'' None,
        Settle 0 (Rejected JUndefined), Enqueue ''c'' 3 () ''mail'' None] new_queue =
     \<lparr>queue = [new_job ''b'' 2 () ''mail'' None, new_job ''c'' 3 () ''mail'' None], processing = True,
      handlers = {''mail''}, dlq = [],
      timers = [], awaiting = [], calls = [new_job ''a'' 1 () ''mail'' None], aborted = [TypeError]\<rparr>"
  by (simp add: run_def without_def enqueue_def process_def while_loop_def settle_def on_false_def
      on_error_def ebind_def new_job_def registerHandler_def new_queue_def retryDelay_def
      defaultMaxRetries_def Let_def)

text \<open>
  Claim C9. In every state the queue can reach from a fresh instance, by any sequence
  of method calls, settled promises and fired timers, at most one activation of
  \<open>process()\<close> is suspended in its loop. \<open>processing\<close> is set exactly when there is one
  or when an activation has ended with an error (then none is suspended any more);
  as long as no handler has rejected with \<open>undefined\<close> or \<open>null\<close> no activation has
  ended so, and \<open>processing\<close> is set exactly when one is suspended. An \<open>enqueue\<close>
  while \<open>processing\<close> is set only appends to the queue: it starts no activation and
  invokes no handler. A timer that fires while the queue is idle and empty restarts
  the loop itself: its job is handed to its handler at once.
\<close>

theorem single_active_drain:
  assumes "s = run es new_queue"
  shows "length (awaiting s) \<le> 1 \<and>
    (processing s \<longleftrightarrow> awaiting s \<noteq> [] \<or> aborted s \<noteq> []) \<and>
    (aborted s \<noteq> [] \<longrightarrow> awaiting s = []) \<and>
    ((\<forall>e \<in> set es. \<not> throws_nullish e) \<longrightarrow>
       aborted s = [] \<and> (processing s \<longleftrightarrow> awaiting s \<noteq> [])) \<and>
    (processing s \<longrightarrow>
       awaiting (enqueue jid now msg tgt maxR s) = awaiting s \<and>
       calls (enqueue jid now msg tgt maxR s) = calls s \<and>
       queue (enqueue jid now msg tgt maxR s) = queue s @ [new_job jid now msg tgt maxR]) \<and>
    (i < length (timers s) \<and> \<not> processing s \<and> queue s = [] \<longrightarrow>
       awaiting (timer_fire i s) = [snd (timers s ! i)] \<and>
       calls (timer_fire i s) = calls s @ [snd (timers s ! i)] \<and>
       processing (timer_fire i s) \<and> queue (timer_fire i s) = [])"
proof -
  have sd: "single_drain s" and h: "handled s"
    using assms single_drain_run [OF single_drain_new_queue] handled_run [OF handled_new_queue]
    by simp_all
  have a: "length (awaiting s) \<le> 1 \<and>
    (processing s \<longleftrightarrow> awaiting s \<noteq> [] \<or> aborted s \<noteq> []) \<and>
    (aborted s \<noteq> [] \<longrightarrow> awaiting s = [])"
    using sd by (simp add: single_drain_def)
  have n: "aborted s = [] \<and> (processing s \<longleftrightarrow> awaiting s \<noteq> [])"
    if "\<forall>e \<in> set es. \<not> throws_nullish e"
  proof -
    from that have "aborted s = []" unfolding assms by (rule no_abort_run) (simp add: new_queue_def)
    with a show ?thesis by simp
  qed
  have b: "processing s \<longrightarrow>
       awaiting (enqueue jid now msg tgt maxR s) = awaiting s \<and>
       calls (enqueue jid now msg tgt maxR s) = calls s \<and>
       queue (enqueue jid now msg tgt maxR s) = queue s @ [new_job jid now msg tgt maxR]"
    by (simp add: enqueue_def Let_def)
  have c: "awaiting (timer_fire i s) = [snd (timers s ! i)] \<and>
       calls (timer_fire i s) = calls s @ [snd (timers s ! i)] \<and>
       processing (timer_fire i s) \<and> queue (timer_fire i s) = []"
    if t: "i < length (timers s)" "\<not> processing s" "queue s = []"
  proof -
    from t have "timers s ! i \<in> set (timers s)" by simp
    with h have "target (snd (timers s ! i)) \<in> handlers s" by (simp add: handled_def)
    moreover from a t have "awaiting s = []" by simp
    ultimately show ?thesis using t
      by (simp add: timer_fire_def Let_def process_def while_loop_def)
  qed
  from a n b c show ?thesis by blast
qed

text \<open>
  Claim C2. A job whose target has no registered handler when the loop pops it is
  pushed on the dead-letter queue unchanged and the loop goes on with the rest: no
  timer is set for it. In every reachable state such a job still has \<open>retries = 0\<close>
  (only jobs that had a handler are ever retried, and handlers are never removed).
  In particular \<open>enqueue\<close> on an idle queue for an unregistered target leaves the new
  job, with \<open>retries = 0\<close>, at the end of the dead-letter queue and nothing else
  changed.
\<close>

theorem unregistered_target_dead_lettered:
  assumes "s = run es new_queue"
  shows "(job \<in> set (queue s) \<and> target job \<notin> handlers s \<longrightarrow> retries job = 0) \<and>
    (target job \<notin> handlers s' \<longrightarrow>
       drain (job # rest) s' = drain rest (s'\<lparr>dlq := dlq s' @ [job]\<rparr>) \<and>
       timers (drain (job # rest) s') = timers s' \<and>
       (\<exists>more. dlq (drain (job # rest) s') = dlq s' @ job # more)) \<and>
    (tgt \<notin> handlers s \<and> \<not> processing s \<longrightarrow>
       dlq (enqueue jid now msg tgt maxR s) = dlq s @ [new_job jid now msg tgt maxR] \<and>
       retries (new_job jid now msg tgt maxR) = 0 \<and>
       timers (enqueue jid now msg tgt maxR s) = timers s \<and>
       calls (enqueue jid now msg tgt maxR s) = calls s \<and>
       awaiting (enqueue jid now msg tgt maxR s) = awaiting s \<and>
       queue (enqueue jid now msg tgt maxR s) = [] \<and>
       \<not> processing (enqueue jid now msg tgt maxR s))"
proof -
  have h: "handled s"
    using assms handled_run [OF handled_new_queue] by simp
  have ie: "idle_empty s"
    unfolding assms by (rule idle_empty_run [OF single_drain_new_queue idle_empty_new_queue])
  have a: "job \<in> set (queue s) \<and> target job \<notin> handlers s \<longrightarrow> retries job = 0"
    using h by (simp add: handled_def)
  have b: "drain (job # rest) s' = drain rest (s'\<lparr>dlq := dlq s' @ [job]\<rparr>) \<and>
       timers (drain (job # rest) s') = timers s' \<and>
       (\<exists>more. dlq (drain (job # rest) s') = dlq s' @ job # more)"
    if "target job \<notin> handlers s'"
    using that drain_dlq_prefix [of rest "s'\<lparr>dlq := dlq s' @ [job]\<rparr>"] by (auto simp: drain_timers)
  have c: "dlq (enqueue jid now msg tgt maxR s) = dlq s @ [new_job jid now msg tgt maxR] \<and>
       retries (new_job jid now msg tgt maxR) = 0 \<and>
       timers (enqueue jid now msg tgt maxR s) = timers s \<and>
       calls (enqueue jid now msg tgt maxR s) = calls s \<and>
       awaiting (enqueue jid now msg tgt maxR s) = awaiting s \<and>
       queue (enqueue jid now msg tgt maxR s) = [] \<and>
       \<not> processing (enqueue jid now msg tgt maxR s)"
    if t: "tgt \<notin> handlers s" "\<not> processing s"
  proof -
    from ie t have "queue s = []" by (simp add: idle_empty_def)
    moreover have "target (new_job jid now msg tgt maxR) = tgt" "retries (new_job jid now msg tgt maxR) = 0"
      by (simp_all add: new_job_def)
    ultimately show ?thesis using t
      by (simp add: enqueue_def Let_def process_def while_loop_def)
  qed
  from a b c show ?thesis by blast
qed

text \<open>
  Claim C6. When every enqueued job has a registered handler and every handler call
  resolves with \<open>true\<close>, then however the \<open>enqueue\<close> calls and the settling of the
  promises interleave, the handlers are invoked in the order of the \<open>enqueue\<close>
  calls, each as soon as the invocations before it have come to their end: when \<open>k\<close>
  handler promises have settled, the handlers have been invoked with exactly the
  first \<open>k + 1\<close> enqueued jobs, in order, the last of them is with its handler and the
  others wait in the queue in order. Once the queue is idle every enqueued job has
  been delivered. No job is re-inserted (no timer is ever set) and none is
  dead-lettered.
\<close>

theorem fifo_without_failures:
  assumes "s0 = foldr registerHandler ts new_queue"
    and "\<forall>e \<in> set es. succeeds (set ts) e"
    and "s = run es s0"
  shows "calls s @ queue s = enqueued es \<and> (\<not> processing s \<longrightarrow> calls s = enqueued es) \<and>
         timers s = [] \<and> dlq s = [] \<and>
         resumed es s0 \<le> length (enqueued es) \<and>
         calls s = take (Suc (resumed es s0)) (enqueued es) \<and>
         queue s = drop (Suc (resumed es s0)) (enqueued es) \<and>
         awaiting s = (if resumed es s0 < length (enqueued es)
                       then [enqueued es ! resumed es s0] else [])"
proof -
  have inv: "fifo_inv [] s0"
    unfolding assms(1) by (simp add: fifo_inv_def idle_empty_def fields_registered)
  have hs: "handlers s0 = set ts" unfolding assms(1) by (simp add: fields_registered)
  have z: "calls s0 = []" "queue s0 = []" unfolding assms(1) by (simp_all add: fields_registered)
  from fifo_run [OF inv, of es] assms(2,3) hs z
  have r: "fifo_inv [] s" "calls s @ queue s = enqueued es" by simp_all
  have "fifo_count [] 0 s0"
    unfolding assms(1) by (simp add: fifo_count_def fields_registered)
  from fifo_count_run [OF inv _ this, of es] assms(2,3) hs
  have "fifo_count (enqueued es) (resumed es s0) s" by simp
  with r show ?thesis by (auto simp: fifo_inv_def idle_empty_def fifo_count_def)
qed

text \<open>
  Claim C1. Take any run of the queue from a fresh instance in which a job is
  enqueued with \<open>maxRetries = 3\<close> for a target that has a handler by then, and in
  which its identifier is given to no other job (the identifier stands for the
  identity of the job object); whatever else happens in the run (other jobs, their
  outcomes, timers, in any interleaving). Let \<open>n\<close> be the number of attempts made for
  the job so far. Then:
  \<^item> \<open>n\<close> is at most 4 and the attempts were made with \<open>retries\<close> 0, 1, ... in this
    order.
  \<^item> Whenever the job is with its handler and the handler returns \<open>false\<close>: after one
    of the first three attempts a timer of 1000 times 2 to the power \<open>n - 1\<close>
    milliseconds (1000, 2000, 4000) is set for the job, now with \<open>retries = n\<close>, and
    the job is not dead-lettered; after the fourth attempt no timer is set and the job
    is appended to the dead-letter queue with \<open>retries = 3\<close>.
  \<^item> A pending timer of the job is the one set at its latest failure; when it fires,
    the job is appended at the tail of the queue if the loop is running and handed to
    its handler at once if the queue is idle.
  \<^item> While the job waits in the queue it has been attempted at most three times, and
    unless an activation has ended with an error a handler call is under way; when
    that call returns, the job is handed to its handler if it is the first job in the
    queue with a handler, and otherwise it has moved closer to the head of the queue.
  \<^item> As long as every handler call for the job returns \<open>false\<close>, the job is never
    lost: until its fourth attempt has failed it is in the queue, with its handler or
    held by a timer.
  \<^item> When the job is in the dead-letter queue it has \<open>retries = 3\<close> and was attempted
    four times, it is in no queue, timer or activation, and whatever happens from then
    on, short of a new \<open>enqueue\<close> that is given the same identifier, it never is again
    and no handler is invoked with it.
\<close>

theorem failing_job_backoff_then_dead_letter:
  fixes s :: "'m MemoryQueue"
  assumes "\<forall>e \<in> set es1 \<union> set es2. \<not> enqueues_id jid e"
    and "tgt \<in> handlers (run es1 new_queue)"
    and "j0 = new_job jid now msg tgt maxR" and "maxRetries j0 = 3"
    and "s = run (es1 @ Enqueue jid now msg tgt maxR # es2) new_queue"
    and "n = length (attempts jid s)"
  shows "n \<le> 4 \<and> attempts jid s = map (\<lambda>r. j0\<lparr>retries := r\<rparr>) [0..<n] \<and>
    (\<forall>i < length (awaiting s). jobId (awaiting s ! i) = jid \<longrightarrow>
       0 < n \<and> awaiting s ! i = j0\<lparr>retries := n - 1\<rparr> \<and>
       (n \<le> 3 \<longrightarrow>
          timers (settle i (Resolved False) s) = timers s @ [(1000 * 2 ^ (n - 1), j0\<lparr>retries := n\<rparr>)] \<and>
          jid \<notin> jobId ` set (dlq (settle i (Resolved False) s))) \<and>
       (n = 4 \<longrightarrow>
          timers (settle i (Resolved False) s) = timers s \<and>
          (\<exists>more. dlq (settle i (Resolved False) s) = dlq s @ j0\<lparr>retries := 3\<rparr> # more))) \<and>
    (\<forall>i < length (timers s). jobId (snd (timers s ! i)) = jid \<longrightarrow>
       0 < n \<and> n \<le> 3 \<and> timers s ! i = (1000 * 2 ^ (n - 1), j0\<lparr>retries := n\<rparr>) \<and>
       (processing s \<longrightarrow> queue (timer_fire i s) = queue s @ [j0\<lparr>retries := n\<rparr>]) \<and>
       (\<not> processing s \<longrightarrow>
          awaiting (timer_fire i s) = [j0\<lparr>retries := n\<rparr>] \<and>
          calls (timer_fire i s) = calls s @ [j0\<lparr>retries := n\<rparr>])) \<and>
    (\<forall>pre j rest. queue s = pre @ j # rest \<and> jobId j = jid \<longrightarrow>
       j = j0\<lparr>retries := n\<rparr> \<and> n \<le> 3 \<and> (aborted s = [] \<longrightarrow> awaiting s \<noteq> []) \<and>
       (\<forall>i < length (awaiting s). \<forall>b.
          (awaiting (settle i (Resolved b) s) = [j] \<and>
           calls (settle i (Resolved b) s) = calls s @ [j] \<and>
           queue (settle i (Resolved b) s) = rest) \<or>
          (\<exists>pre'. queue (settle i (Resolved b) s) = pre' @ j # rest \<and> length pre' < length pre))) \<and>
    (always_fails jid es2 (enqueue jid now msg tgt maxR (run es1 new_queue)) \<longrightarrow>
       jid \<in> jobId ` live s \<or> n = 4) \<and>
    (\<forall>j \<in> set (dlq s). jobId j = jid \<longrightarrow>
       n = 4 \<and> j = j0\<lparr>retries := 3\<rparr> \<and> jid \<notin> jobId ` live s \<and>
       (\<forall>es'. (\<forall>e \<in> set es'. \<not> enqueues_id jid e) \<longrightarrow>
          jid \<notin> jobId ` live (run es' s) \<and> attempts jid (run es' s) = attempts jid s))"
proof -
  have tr: "tracked jid j0 s"
    unfolding assms(3,5) by (rule tracked_reached [OF assms(1,2)])
  then have t: "target j0 \<in> handlers s"
    "attempts jid s = map (\<lambda>r. j0\<lparr>retries := r\<rparr>) [0..<n]"
    "n \<le> 1 \<or> int n \<le> maxRetries j0 + 1"
    "length (filter (\<lambda>j. jobId j = jid) (holders s)) \<le> 1"
    "\<forall>j \<in> set (queue s). jobId j = jid \<longrightarrow> at_queue j0 n j"
    "\<forall>j \<in> set (awaiting s). jobId j = jid \<longrightarrow> at_await j0 n j"
    "\<forall>p \<in> set (timers s). jobId (snd p) = jid \<longrightarrow> at_timer j0 n p"
    "\<forall>j \<in> set (dlq s). jobId j = jid \<longrightarrow> at_dlq j0 n j"
    unfolding tracked_def Let_def assms(6) by blast+
  have reach: "s = run (es1 @ Enqueue jid now msg tgt maxR # es2) new_queue" by (rule assms(5))
  have sd: "single_drain s" unfolding reach by (rule single_drain_run [OF single_drain_new_queue])
  have ie: "idle_empty s"
    unfolding reach by (rule idle_empty_run [OF single_drain_new_queue idle_empty_new_queue])
  have n4: "n \<le> 4" using t(3) assms(4) by auto
  have aw: "0 < n \<and> awaiting s ! i = j0\<lparr>retries := n - 1\<rparr> \<and>
       (n \<le> 3 \<longrightarrow>
          timers (settle i (Resolved False) s) = timers s @ [(1000 * 2 ^ (n - 1), j0\<lparr>retries := n\<rparr>)] \<and>
          jid \<notin> jobId ` set (dlq (settle i (Resolved False) s))) \<and>
       (n = 4 \<longrightarrow>
          timers (settle i (Resolved False) s) = timers s \<and>
          (\<exists>more. dlq (settle i (Resolved False) s) = dlq s @ j0\<lparr>retries := 3\<rparr> # more))"
    if i: "i < length (awaiting s)" "jobId (awaiting s ! i) = jid" for i
  proof -
    let ?j = "awaiting s ! i"
    let ?s1 = "s\<lparr>awaiting := without i (awaiting s)\<rparr>"
    let ?s' = "settle i (Resolved False) s"
    from i have "?j \<in> set (awaiting s)" by simp
    with t(6) i(2) have a: "0 < n" "?j = j0\<lparr>retries := n - 1\<rparr>" by (auto simp: at_await_def)
    then have r: "retries ?j = n - 1" "maxRetries ?j = 3" using assms(4) by simp_all
    have st: "?s' = while_loop (on_false ?j ?s1)" using i(1) by (simp add: settle_cases)
    have low: "timers ?s' = timers s @ [(1000 * 2 ^ (n - 1), j0\<lparr>retries := n\<rparr>)] \<and>
          jid \<notin> jobId ` set (dlq ?s')" if "n \<le> 3"
    proof -
      from that a(1) r have c: "int (retries ?j) < maxRetries ?j" by simp
      from a have u: "?j\<lparr>retries := retries ?j + 1\<rparr> = j0\<lparr>retries := n\<rparr>" by simp
      from c u r a(1) have tm: "timers ?s' = timers s @ [(1000 * 2 ^ (n - 1), j0\<lparr>retries := n\<rparr>)]"
        unfolding st while_loop_def by (simp add: drain_timers on_false_def Let_def retryDelay_def)
      have "tracked jid j0 (step (Settle i (Resolved False)) s)"
        by (rule tracked_step [OF tr]) simp
      then have "length (filter (\<lambda>j. jobId j = jid) (holders ?s')) \<le> 1"
        unfolding tracked_def Let_def by simp
      from not_dead_if_timer [OF this, of "(1000 * 2 ^ (n - 1), j0\<lparr>retries := n\<rparr>)"] tm
      have "jid \<notin> jobId ` set (dlq ?s')" using assms(3) by (simp add: new_job_def)
      with tm show ?thesis by simp
    qed
    have high: "timers ?s' = timers s \<and> (\<exists>more. dlq ?s' = dlq s @ j0\<lparr>retries := 3\<rparr> # more)"
      if "n = 4"
    proof -
      from that r have c: "\<not> int (retries ?j) < maxRetries ?j" by simp
      from that a have j3: "?j = j0\<lparr>retries := 3\<rparr>" by simp
      from c have o: "on_false ?j ?s1 = ?s1\<lparr>dlq := dlq s @ [?j]\<rparr>" by (simp add: on_false_def)
      have "timers ?s' = timers s" unfolding st while_loop_def o by (simp add: drain_timers)
      moreover from drain_dlq_prefix [of "queue s" "?s1\<lparr>dlq := dlq s @ [?j]\<rparr>"]
      have "\<exists>more. dlq ?s' = dlq s @ j0\<lparr>retries := 3\<rparr> # more"
        unfolding st while_loop_def o using j3 by simp
      ultimately show ?thesis by simp
    qed
    from a low high show ?thesis by blast
  qed
  have tm: "0 < n \<and> n \<le> 3 \<and> timers s ! i = (1000 * 2 ^ (n - 1), j0\<lparr>retries := n\<rparr>) \<and>
       (processing s \<longrightarrow> queue (timer_fire i s) = queue s @ [j0\<lparr>retries := n\<rparr>]) \<and>
       (\<not> processing s \<longrightarrow>
          awaiting (timer_fire i s) = [j0\<lparr>retries := n\<rparr>] \<and>
          calls (timer_fire i s) = calls s @ [j0\<lparr>retries := n\<rparr>])"
    if i: "i < length (timers s)" "jobId (snd (timers s ! i)) = jid" for i
  proof -
    from i have "timers s ! i \<in> set (timers s)" by simp
    with t(7) i(2) have a: "0 < n" "int n \<le> maxRetries j0"
      "timers s ! i = (retryDelay * 2 ^ (n - 1), j0\<lparr>retries := n\<rparr>)"
      by (auto simp: at_timer_def)
    have busy: "queue (timer_fire i s) = queue s @ [j0\<lparr>retries := n\<rparr>]" if "processing s"
      using that i(1) a(3) by (simp add: timer_fire_def Let_def)
    have idle: "awaiting (timer_fire i s) = [j0\<lparr>retries := n\<rparr>] \<and>
          calls (timer_fire i s) = calls s @ [j0\<lparr>retries := n\<rparr>]" if "\<not> processing s"
    proof -
      from that ie sd have "queue s = []" "awaiting s = []"
        by (simp_all add: idle_empty_def single_drain_def)
      then show ?thesis using that i(1) a(3) t(1)
        by (simp add: timer_fire_def Let_def process_def while_loop_def)
    qed
    from a assms(4) busy idle show ?thesis by (simp add: retryDelay_def)
  qed
  have qu: "j = j0\<lparr>retries := n\<rparr> \<and> n \<le> 3 \<and> (aborted s = [] \<longrightarrow> awaiting s \<noteq> []) \<and>
       (\<forall>i < length (awaiting s). \<forall>b.
          (awaiting (settle i (Resolved b) s) = [j] \<and>
           calls (settle i (Resolved b) s) = calls s @ [j] \<and>
           queue (settle i (Resolved b) s) = rest) \<or>
          (\<exists>pre'. queue (settle i (Resolved b) s) = pre' @ j # rest \<and> length pre' < length pre))"
    if q: "queue s = pre @ j # rest" "jobId j = jid" for pre j rest
  proof -
    from q(1) have "j \<in> set (queue s)" by simp
    with t(5) q(2) n4 assms(4) have a: "j = j0\<lparr>retries := n\<rparr>" "n \<le> 3"
      by (auto simp: at_queue_def)
    from q(1) ie have "processing s" by (auto simp: idle_empty_def)
    with sd have b: "aborted s = [] \<longrightarrow> awaiting s \<noteq> []" by (auto simp: single_drain_def)
    have "(awaiting (settle i (Resolved b) s) = [j] \<and>
           calls (settle i (Resolved b) s) = calls s @ [j] \<and>
           queue (settle i (Resolved b) s) = rest) \<or>
          (\<exists>pre'. queue (settle i (Resolved b) s) = pre' @ j # rest \<and> length pre' < length pre)"
      if "i < length (awaiting s)" for i b
      by (rule queue_progress [OF sd tr that q])
    with a b show ?thesis by blast
  qed
  have nl: "jid \<in> jobId ` live s \<or> n = 4"
    if af: "always_fails jid es2 (enqueue jid now msg tgt maxR (run es1 new_queue))"
  proof -
    let ?s1 = "enqueue jid now msg tgt maxR (run es1 new_queue)"
    from assms(1) have fresh: "jid \<notin> known (run es1 new_queue)"
      using known_run [of es1 jid new_queue] by (simp add: known_new_queue)
    have t1: "tracked jid j0 ?s1" unfolding assms(3) by (rule tracked_enqueue_new [OF fresh assms(2)])
    have l1: "jid \<in> jobId ` live ?s1" by (rule live_enqueue_new [OF fresh assms(2)])
    have r: "s = run es2 ?s1" unfolding reach by (simp add: run_def)
    from survives_run [OF t1 assms(4) _ af] l1 assms(1) show ?thesis
      unfolding r assms(6) by simp
  qed
  have dl: "n = 4 \<and> j = j0\<lparr>retries := 3\<rparr> \<and> jid \<notin> jobId ` live s \<and>
       (\<forall>es'. (\<forall>e \<in> set es'. \<not> enqueues_id jid e) \<longrightarrow>
          jid \<notin> jobId ` live (run es' s) \<and> attempts jid (run es' s) = attempts jid s)"
    if j: "j \<in> set (dlq s)" "jobId j = jid" for j
  proof -
    from t(8) j have a: "0 < n" "\<not> int (n - 1) < maxRetries j0" "j = j0\<lparr>retries := n - 1\<rparr>"
      by (auto simp: at_dlq_def)
    with n4 assms(4) have n: "n = 4" by auto
    from not_live_if_dead [OF t(4) j] have nl: "jid \<notin> jobId ` live s" .
    then have r: "retired jid (attempts jid s) s" by (simp add: retired_def attempts_def)
    have "jid \<notin> jobId ` live (run es' s) \<and> attempts jid (run es' s) = attempts jid s"
      if "\<forall>e \<in> set es'. \<not> enqueues_id jid e" for es'
      using retired_run [OF r that] by (simp add: retired_def attempts_def)
    with n a(3) nl show ?thesis by simp
  qed
  from aw have c1: "\<forall>i < length (awaiting s). jobId (awaiting s ! i) = jid \<longrightarrow>
       0 < n \<and> awaiting s ! i = j0\<lparr>retries := n - 1\<rparr> \<and>
       (n \<le> 3 \<longrightarrow>
          timers (settle i (Resolved False) s) = timers s @ [(1000 * 2 ^ (n - 1), j0\<lparr>retries := n\<rparr>)] \<and>
          jid \<notin> jobId ` set (dlq (settle i (Resolved False) s))) \<and>
       (n = 4 \<longrightarrow>
          timers (settle i (Resolved False) s) = timers s \<and>
          (\<exists>more. dlq (settle i (Resolved False) s) = dlq s @ j0\<lparr>retries := 3\<rparr> # more))"
    by blast
  from tm have c2: "\<forall>i < length (timers s). jobId (snd (timers s ! i)) = jid \<longrightarrow>
       0 < n \<and> n \<le> 3 \<and> timers s ! i = (1000 * 2 ^ (n - 1), j0\<lparr>retries := n\<rparr>) \<and>
       (processing s \<longrightarrow> queue (timer_fire i s) = queue s @ [j0\<lparr>retries := n\<rparr>]) \<and>
       (\<not> processing s \<longrightarrow>
          awaiting (timer_fire i s) = [j0\<lparr>retries := n\<rparr>] \<and>
          calls (timer_fire i s) = calls s @ [j0\<lparr>retries := n\<rparr>])"
    by blast
  from qu have c3: "\<forall>pre j rest. queue s = pre @ j # rest \<and> jobId j = jid \<longrightarrow>
       j = j0\<lparr>retries := n\<rparr> \<and> n \<le> 3 \<and> (aborted s = [] \<longrightarrow> awaiting s \<noteq> []) \<and>
       (\<forall>i < length (awaiting s). \<forall>b.
          (awaiting (settle i (Resolved b) s) = [j] \<and>
           calls (settle i (Resolved b) s) = calls s @ [j] \<and>
           queue (settle i (Resolved b) s) = rest) \<or>
          (\<exists>pre'. queue (settle i (Resolved b) s) = pre' @ j # rest \<and> length pre' < length pre))"
    by blast
  from dl have c5: "\<forall>j \<in> set (dlq s). jobId j = jid \<longrightarrow>
       n = 4 \<and> j = j0\<lparr>retries := 3\<rparr> \<and> jid \<notin> jobId ` live s \<and>
       (\<forall>es'. (\<forall>e \<in> set es'. \<not> enqueues_id jid e) \<longrightarrow>
          jid \<notin> jobId ` live (run es' s) \<and> attempts jid (run es' s) = attempts jid s)"
    by blast
  from nl have c4: "always_fails jid es2 (enqueue jid now msg tgt maxR (run es1 new_queue)) \<longrightarrow>
       jid \<in> jobId ` live s \<or> n = 4" by blast
  show ?thesis by (intro conjI) (rule n4 t(2) c1 c2 c3 c4 c5)+
qed

lemmas queue_eval = run_def without_def enqueue_def process_def while_loop_def settle_def timer_fire_def
  on_false_def on_error_def ebind_def new_job_def registerHandler_def new_queue_def clearDLQ_def
  retryDelay_def defaultMaxRetries_def attempts_def live_def Let_def

theorem fifo_without_failures_witness:
  "succeeds (set [''telegram'', ''mail'']) (Enqueue ''A'' 1 () ''telegram'' None) \<and>
   succeeds (set [''telegram'', ''mail'']) (Enqueue ''B'' 2 () ''mail'' None) \<and>
   succeeds (set [''telegram'', ''mail'']) (Enqueue ''C'' 3 () ''telegram'' None) \<and>
   succeeds (set [''telegram'', ''mail'']) (Settle 0 (Resolved True)) \<and>
   resumed [Enqueue ''A'' 1 () ''telegram'' None, Enqueue ''B'' 2 () ''mail'' None,
            Enqueue ''C'' 3 () ''telegram'' None, Settle 0 (Resolved True)]
     (foldr registerHandler [''telegram'', ''mail''] (new_queue :: unit MemoryQueue)) = 1 \<and>
   calls (run [Enqueue ''A'' 1 () ''telegram'' None, Enqueue ''B'' 2 () ''mail'' None,
               Enqueue ''C'' 3 () ''telegram'' None, Settle 0 (Resolved True)]
            (foldr registerHandler [''telegram'', ''mail''] new_queue))
     = [new_job ''A'' 1 () ''telegram'' None, new_job ''B'' 2 () ''mail'' None] \<and>
   queue (run [Enqueue ''A'' 1 () ''telegram'' None, Enqueue ''B'' 2 () ''mail'' None,
               Enqueue ''C'' 3 () ''telegram'' None, Settle 0 (Resolved True)]
            (foldr registerHandler [''telegram'', ''mail''] new_queue))
     = [new_job ''C'' 3 () ''telegram'' None] \<and>
   calls (run [Enqueue ''A'' 1 () ''telegram'' None, Enqueue ''B'' 2 () ''mail'' None,
               Enqueue ''C'' 3 () ''telegram'' None, Settle 0 (Resolved True),
               Settle 0 (Resolved True), Settle 0 (Resolved True)]
            (foldr registerHandler [''telegram'', ''mail''] new_queue))
     = [new_job ''A'' 1 () ''telegram'' None, new_job ''B'' 2 () ''mail'' None,
        new_job ''C'' 3 () ''telegram'' None] \<and>
   calls (run [Enqueue ''A'' 1 () ''telegram'' None, Enqueue ''B'' 2 () ''mail'' None,
               Settle 0 (Resolved True), Enqueue ''C'' 3 () ''telegram'' None,
               Settle 0 (Resolved True), Settle 0 (Resolved True)]
            (foldr registerHandler [''telegram'', ''mail''] new_queue))
     = [new_job ''A'' 1 () ''telegram'' None, new_job ''B'' 2 () ''mail'' None,
        new_job ''C'' 3 () ''telegram'' None]"
  using fifo_without_failures [OF refl _ refl, of
      "[Enqueue ''A'' 1 () ''telegram'' None, Enqueue ''B'' 2 () ''mail'' None,
        Enqueue ''C'' 3 () ''telegram'' None, Settle 0 (Resolved True)]" "[''telegram'', ''mail'']"]
    fifo_without_failures [OF refl _ refl, of
      "[Enqueue ''A'' 1 () ''telegram'' None, Enqueue ''B'' 2 () ''mail'' None,
        Enqueue ''C'' 3 () ''telegram'' None, Settle 0 (Resolved True),
        Settle 0 (Resolved True), Settle 0 (Resolved True)]" "[''telegram'', ''mail'']"]
    fifo_without_failures [OF refl _ refl, of
      "[Enqueue ''A'' 1 () ''telegram'' None, Enqueue ''B'' 2 () ''mail'' None,
        Settle 0 (Resolved True), Enqueue ''C'' 3 () ''telegram'' None,
        Settle 0 (Resolved True), Settle 0 (Resolved True)]" "[''telegram'', ''mail'']"]
  by (simp add: queue_eval)

theorem single_active_drain_witness:
  "processing (run [RegisterHandler ''mail'', Enqueue ''a'' 1 () ''mail'' None] new_queue) \<and>
   \<not> throws_nullish (RegisterHandler ''mail'' :: unit event) \<and>
   \<not> throws_nullish (Enqueue ''a'' 1 () ''mail'' None) \<and>
   \<not> throws_nullish (Settle 0 (Resolved False) :: unit event) \<and>
   aborted (run [RegisterHandler ''mail'', Enqueue ''a'' 1 () ''mail'' None] (new_queue :: unit MemoryQueue)) = [] \<and>
   awaiting (enqueue ''b'' 2 () ''mail'' None
       (run [RegisterHandler ''mail'', Enqueue ''a'' 1 () ''mail'' None] new_queue))
     = [new_job ''a'' 1 () ''mail'' None] \<and>
   \<not> processing (run [RegisterHandler ''mail'', Enqueue ''a'' 1 () ''mail'' None,
                       Settle 0 (Resolved False)] new_queue) \<and>
   queue (run [RegisterHandler ''mail'', Enqueue ''a'' 1 () ''mail'' None,
                       Settle 0 (Resolved False)] new_queue) = [] \<and>
   awaiting (timer_fire 0 (run [RegisterHandler ''mail'', Enqueue ''a'' 1 () ''mail'' None,
                       Settle 0 (Resolved False)] new_queue))
     = [(new_job ''a'' 1 () ''mail'' None)\<lparr>retries := 1\<rparr>] \<and>
   processing (run [RegisterHandler ''mail'', Enqueue ''a'' 1 () ''mail'' None,
                    Settle 0 (Rejected JNull)] new_queue) \<and>
   awaiting (run [RegisterHandler ''mail'', Enqueue ''a'' 1 () ''mail'' None,
                    Settle 0 (Rejected JNull)] (new_queue :: unit MemoryQueue)) = [] \<and>
   aborted (run [RegisterHandler ''mail'', Enqueue ''a'' 1 () ''mail'' None,
                    Settle 0 (Rejected JNull)] (new_queue :: unit MemoryQueue)) = [TypeError]"
  using single_active_drain [OF refl, of "[RegisterHandler ''mail'', Enqueue ''a'' 1 () ''mail'' None]"
      "''b''" 2 "()" "''mail''" None 0]
    single_active_drain [OF refl, of "[RegisterHandler ''mail'', Enqueue ''a'' 1 () ''mail'' None,
      Settle 0 (Resolved False)]" "''b''" 2 "()" "''mail''" None 0]
    single_active_drain [OF refl, of "[RegisterHandler ''mail'', Enqueue ''a'' 1 () ''mail'' None,
      Settle 0 (Rejected JNull)]" "''b''" 2 "()" "''mail''" None 0]
  by (simp add: queue_eval)

theorem unregistered_target_dead_lettered_witness:
  "queue (run [RegisterHandler ''mail'', Enqueue ''a'' 1 () ''mail'' None,
               Enqueue ''b'' 2 () ''github'' None] new_queue) = [new_job ''b'' 2 () ''github'' None] \<and>
   target (new_job ''b'' 2 () ''github'' None) \<notin>
     handlers (run [RegisterHandler ''mail'', Enqueue ''a'' 1 () ''mail'' None,
               Enqueue ''b'' 2 () ''github'' None] new_queue) \<and>
   retries (new_job ''b'' 2 () ''github'' None) = 0 \<and>
   dlq (drain [new_job ''b'' 2 () ''github'' None]
       (run [RegisterHandler ''mail'', Enqueue ''a'' 1 () ''mail'' None,
               Enqueue ''b'' 2 () ''github'' None] new_queue)) = [new_job ''b'' 2 () ''github'' None] \<and>
   \<not> processing (run [RegisterHandler ''mail''] (new_queue :: unit MemoryQueue)) \<and>
   dlq (enqueue ''c'' 3 () ''github'' None (run [RegisterHandler ''mail''] new_queue))
     = [new_job ''c'' 3 () ''github'' None] \<and>
   timers (enqueue ''c'' 3 () ''github'' None (run [RegisterHandler ''mail''] new_queue)) = []"
  using unregistered_target_dead_lettered [OF refl,
      of "new_job ''b'' 2 () ''github'' None"
         "[RegisterHandler ''mail'', Enqueue ''a'' 1 () ''mail'' None, Enqueue ''b'' 2 () ''github'' None]"
         "run [RegisterHandler ''mail'', Enqueue ''a'' 1 () ''mail'' None,
               Enqueue ''b'' 2 () ''github'' None] new_queue" "[]" "''github''" "''c''" 3 "()" None]
    unregistered_target_dead_lettered [OF refl,
      of "new_job ''b'' 2 () ''github'' None" "[RegisterHandler ''mail'']"
         "run [RegisterHandler ''mail''] new_queue" "[]" "''github''" "''c''" 3 "()" None]
  by (simp add: queue_eval)

theorem failing_job_backoff_then_dead_letter_witness:
  "''mail'' \<in> handlers (run [RegisterHandler ''mail'', Enqueue ''b'' 1 () ''mail'' None]
                          (new_queue :: unit MemoryQueue)) \<and>
   maxRetries (new_job ''a'' 2 () ''mail'' (Some 3)) = 3 \<and>
   always_fails ''a'' [Settle 0 (Resolved True), Enqueue ''c'' 3 () ''mail'' None,
                       Settle 0 (Resolved False), TimerFire 0, Settle 0 (Resolved True)]
     (enqueue ''a'' 2 () ''mail'' (Some 3)
        (run [RegisterHandler ''mail'', Enqueue ''b'' 1 () ''mail'' None] (new_queue :: unit MemoryQueue))) \<and>
   queue (run ([RegisterHandler ''mail'', Enqueue ''b'' 1 () ''mail'' None] @
               Enqueue ''a'' 2 () ''mail'' (Some 3) # []) new_queue)
     = [] @ new_job ''a'' 2 () ''mail'' (Some 3) # [] \<and>
   awaiting (settle 0 (Resolved True)
       (run ([RegisterHandler ''mail'', Enqueue ''b'' 1 () ''mail'' None] @
               Enqueue ''a'' 2 () ''mail'' (Some 3) # []) new_queue))
     = [new_job ''a'' 2 () ''mail'' (Some 3)] \<and>
   awaiting (run ([RegisterHandler ''mail'', Enqueue ''b'' 1 () ''mail'' None] @
                  Enqueue ''a'' 2 () ''mail'' (Some 3) # [Settle 0 (Resolved True)]) new_queue)
     = [new_job ''a'' 2 () ''mail'' (Some 3)] \<and>
   timers (settle 0 (Resolved False)
       (run ([RegisterHandler ''mail'', Enqueue ''b'' 1 () ''mail'' None] @
             Enqueue ''a'' 2 () ''mail'' (Some 3) # [Settle 0 (Resolved True)]) new_queue))
     = [(1000, (new_job ''a'' 2 () ''mail'' (Some 3))\<lparr>retries := 1\<rparr>)] \<and>
   queue (run ([RegisterHandler ''mail'', Enqueue ''b'' 1 () ''mail'' None] @
               Enqueue ''a'' 2 () ''mail'' (Some 3) #
               [Settle 0 (Resolved True), Enqueue ''c'' 3 () ''mail'' None,
                Settle 0 (Resolved False), TimerFire 0]) new_queue)
     = [(new_job ''a'' 2 () ''mail'' (Some 3))\<lparr>retries := 1\<rparr>] \<and>
   timers (settle 0 (Resolved False)
       (run ([RegisterHandler ''mail'', Enqueue ''b'' 1 () ''mail'' None] @
             Enqueue ''a'' 2 () ''mail'' (Some 3) #
             [Settle 0 (Resolved True), Enqueue ''c'' 3 () ''mail'' None,
              Settle 0 (Resolved False), TimerFire 0, Settle 0 (Resolved True)]) new_queue))
     = [(2000, (new_job ''a'' 2 () ''mail'' (Some 3))\<lparr>retries := 2\<rparr>)] \<and>
   timers (settle 0 (Resolved False)
       (run ([RegisterHandler ''mail'', Enqueue ''b'' 1 () ''mail'' None] @
             Enqueue ''a'' 2 () ''mail'' (Some 3) #
             [Settle 0 (Resolved True), Enqueue ''c'' 3 () ''mail'' None,
              Settle 0 (Resolved False), TimerFire 0, Settle 0 (Resolved True),
              Settle 0 (Resolved False), TimerFire 0]) new_queue))
     = [(4000, (new_job ''a'' 2 () ''mail'' (Some 3))\<lparr>retries := 3\<rparr>)] \<and>
   dlq (settle 0 (Resolved False)
       (run ([RegisterHandler ''mail'', Enqueue ''b'' 1 () ''mail'' None] @
             Enqueue ''a'' 2 () ''mail'' (Some 3) #
             [Settle 0 (Resolved True), Enqueue ''c'' 3 () ''mail'' None,
              Settle 0 (Resolved False), TimerFire 0, Settle 0 (Resolved True),
              Settle 0 (Resolved False), TimerFire 0,
              Settle 0 (Resolved False), TimerFire 0]) new_queue))
     = [(new_job ''a'' 2 () ''mail'' (Some 3))\<lparr>retries := 3\<rparr>] \<and>
   attempts ''a''
       (run ([RegisterHandler ''mail'', Enqueue ''b'' 1 () ''mail'' None] @
             Enqueue ''a'' 2 () ''mail'' (Some 3) #
             [Settle 0 (Resolved True), Enqueue ''c'' 3 () ''mail'' None,
              Settle 0 (Resolved False), TimerFire 0, Settle 0 (Resolved True),
              Settle 0 (Resolved False), TimerFire 0,
              Settle 0 (Resolved False), TimerFire 0, Settle 0 (Resolved False)]) new_queue)
     = [new_job ''a'' 2 () ''mail'' (Some 3), (new_job ''a'' 2 () ''mail'' (Some 3))\<lparr>retries := 1\<rparr>,
        (new_job ''a'' 2 () ''mail'' (Some 3))\<lparr>retries := 2\<rparr>,
        (new_job ''a'' 2 () ''mail'' (Some 3))\<lparr>retries := 3\<rparr>]"
  using failing_job_backoff_then_dead_letter
     [where ?es1.0 = "[RegisterHandler ''mail'', Enqueue ''b'' 1 () ''mail'' None] :: unit event list"
        and ?es2.0 = "[Settle 0 (Resolved True)]"
        and jid = "''a''" and now = 2 and msg = "()" and tgt = "''mail''" and maxR = "Some 3",
      OF _ _ refl _ refl refl]
    failing_job_backoff_then_dead_letter
     [where ?es1.0 = "[RegisterHandler ''mail'', Enqueue ''b'' 1 () ''mail'' None] :: unit event list"
        and ?es2.0 = "[Settle 0 (Resolved True), Enqueue ''c'' 3 () ''mail'' None,
              Settle 0 (Resolved False), TimerFire 0, Settle 0 (Resolved True)]"
        and jid = "''a''" and now = 2 and msg = "()" and tgt = "''mail''" and maxR = "Some 3",
      OF _ _ refl _ refl refl]
    failing_job_backoff_then_dead_letter
     [where ?es1.0 = "[RegisterHandler ''mail'', Enqueue ''b'' 1 () ''mail'' None] :: unit event list"
        and ?es2.0 = "[]"
        and jid = "''a''" and now = 2 and msg = "()" and tgt = "''mail''" and maxR = "Some 3",
      OF _ _ refl _ refl refl]
  by (simp add: queue_eval)

section \<open>Properties of the deduplication set\<close>

lemma mark_all_snoc: "mark_all (ids @ [x]) s = markEventProcessed x (mark_all ids s)"
  by (simp add: mark_all_def)

lemma mark_fresh_head_empty:
  assumes "x \<notin> set s" "s = [] \<or> hd s = []"
  shows "markEventProcessed x s = s @ [x]"
  using assms by (cases s) (auto simp: markEventProcessed_def set_add_def Let_def)

lemma mark_all_head_empty:
  "distinct ids \<Longrightarrow> ids = [] \<or> hd ids = [] \<Longrightarrow> mark_all ids [] = ids"
proof (induction ids rule: rev_induct)
  case Nil
  show ?case by (simp add: mark_all_def)
next
  case (snoc x ids)
  then have d: "distinct ids" "x \<notin> set ids" by simp_all
  from snoc.prems have h: "ids = [] \<or> hd ids = []" by (cases ids) auto
  from snoc.IH [OF d(1) h] have "mark_all ids [] = ids" .
  then show ?case using d h by (simp add: mark_all_snoc mark_fresh_head_empty)
qed

lemma mark_fresh_nonempty:
  assumes "x \<notin> set s" "distinct s" "[] \<notin> set s" "length s \<le> 1000"
  shows "markEventProcessed x s = (if length s < 1000 then s @ [x] else tl s @ [x])"
  using assms by (cases s) (auto simp: markEventProcessed_def set_add_def set_delete_def Let_def)

text \<open>
  For identifiers that are all non-empty the set is a FIFO window of the last 1000
  distinct identifiers.
\<close>

lemma mark_all_nonempty:
  "distinct ids \<Longrightarrow> [] \<notin> set ids \<Longrightarrow> mark_all ids [] = drop (length ids - 1000) ids"
proof (induction ids rule: rev_induct)
  case Nil
  show ?case by (simp add: mark_all_def)
next
  case (snoc x ids)
  let ?s = "drop (length ids - 1000) ids"
  from snoc have ih: "mark_all ids [] = ?s" by simp
  from snoc.prems have f: "x \<notin> set ?s" "distinct ?s" "[] \<notin> set ?s" "length ?s \<le> 1000"
    by (auto dest: in_set_dropD)
  show ?case
  proof (cases "length ids < 1000")
    case True
    then show ?thesis using ih f by (simp add: mark_all_snoc mark_fresh_nonempty)
  next
    case False
    then have l: "length ?s = 1000" by simp
    have "tl ?s = drop (Suc (length ids - 1000)) ids"
      by (simp add: drop_Suc tl_drop)
    moreover have "Suc (length ids - 1000) = Suc (length ids) - 1000"
      using False by arith
    ultimately have "tl ?s = drop (Suc (length ids) - 1000) ids" by simp
    then show ?thesis using ih f l False
      by (simp add: mark_all_snoc mark_fresh_nonempty)
  qed
qed

lemma run_ids_props:
  "distinct (map (\<lambda>n. replicate n CHR ''e'') [0..<N])"
  "length (map (\<lambda>n. replicate n CHR ''e'') [0..<N]) = N"
  "0 < N \<Longrightarrow> hd (map (\<lambda>n. replicate n CHR ''e'') [0..<N]) = []"
proof -
  have "inj_on (\<lambda>n. replicate n CHR ''e'') (set [0..<N])"
    by (rule inj_onI) (metis length_replicate)
  then show "distinct (map (\<lambda>n. replicate n CHR ''e'') [0..<N])" by (simp add: distinct_map)
  show "length (map (\<lambda>n. replicate n CHR ''e'') [0..<N]) = N" by simp
  show "hd (map (\<lambda>n. replicate n CHR ''e'') [0..<N]) = []" if "0 < N"
    using that by (simp add: upt_conv_Cons)
qed

lemma empty_id_kept:
  assumes "0 < N"
  shows "isEventProcessed [] (mark_all (map (\<lambda>n. replicate n CHR ''e'') [0..<N]) []) \<and>
         length (mark_all (map (\<lambda>n. replicate n CHR ''e'') [0..<N]) []) = N"
proof -
  let ?ids = "map (\<lambda>n. replicate n CHR ''e'') [0..<N]"
  have m: "mark_all ?ids [] = ?ids"
    using run_ids_props(1) run_ids_props(3) [OF assms] by (intro mark_all_head_empty) auto
  have "?ids \<noteq> []" using assms by simp
  then have "hd ?ids \<in> set ?ids" by (rule hd_in_set)
  then have "[] \<in> set ?ids" using run_ids_props(3) [OF assms] by simp
  then show ?thesis unfolding m isEventProcessed_def using run_ids_props(2) [of N] by blast
qed

text \<open>
  Claim C4 asks that after 1001 distinct identifiers the first one is no longer
  reported and the set holds 1000 entries. When the first identifier marked is the
  empty string the eviction is skipped: marking the empty string and then the 1000
  identifiers \<open>e\<close>, \<open>ee\<close>, \<open>eee\<close>, ... leaves the empty string reported as processed
  and 1001 entries in the set.
\<close>

theorem empty_id_is_never_evicted:
  "isEventProcessed [] (mark_all (map (\<lambda>n. replicate n CHR ''e'') [0..<1001]) []) \<and>
   length (mark_all (map (\<lambda>n. replicate n CHR ''e'') [0..<1001]) []) = 1001"
  by (rule empty_id_kept) simp


section \<open>Properties of normalisation\<close>

lemma get_prop: "\<not> nullish v \<Longrightarrow> get v k = Inr (field_of v k)"
  by (cases v) (simp_all add: field_of_def)

lemma truthy_not_nullish: "truthy v \<Longrightarrow> \<not> nullish v"
  by (cases v) simp_all

lemma opt_get_prop: "opt_get v k = Inr (if nullish v then JUndefined else field_of v k)"
  by (simp add: opt_get_def get_prop)

lemma ebind_Inr [simp]: "ebind (Inr v) f = f v"
  by (simp add: ebind_def)

lemma ebind_Inl [simp]: "ebind (Inl e) f = Inl e"
  by (simp add: ebind_def)

lemma telegram_case_ok:
  assumes "\<not> nullish rawData"
  shows "\<exists>f. telegram_case rawData = Inr f \<and>
             (\<not> truthy (field_of rawData ''message'') \<longrightarrow> f = initial_fields)"
  using assms
  by (simp add: telegram_case_def get_prop opt_get_prop truthy_not_nullish)

lemma github_case_ok:
  assumes "\<not> nullish rawData"
  shows "\<exists>f. github_case rawData = Inr f \<and>
             (\<not> truthy (field_of rawData ''issue'') \<longrightarrow> f = initial_fields)"
  using assms
  by (simp add: github_case_def get_prop opt_get_prop truthy_not_nullish)

lemma api_case_ok:
  assumes "\<not> nullish rawData"
  shows "\<exists>f. api_case b rawData = Inr f \<and>
             (\<not> truthy (field_of rawData ''content'') \<and> \<not> truthy (field_of rawData ''message'')
                \<longrightarrow> f_content f = JStr [])"
  using assms
  by (simp add: api_case_def get_prop opt_get_prop truthy_not_nullish js_or_def)

text \<open>
  Claim C7, amended. For every source and every \<open>rawData\<close> other than \<open>null\<close> and
  \<open>undefined\<close>, \<open>normalize\<close> does not throw and returns an unsanitized message of that
  source. When the sub-object of the source is absent (\<open>rawData.message\<close> for
  telegram, \<open>rawData.issue\<close> for github) the message has the empty string as content,
  no title, no author and no metadata; for the API sources the content is the empty
  string when neither \<open>rawData.content\<close> nor \<open>rawData.message\<close> is given.
\<close>

theorem normalize_total_on_defined_payloads:
  assumes "rawData \<noteq> JUndefined" "rawData \<noteq> JNull"
  shows "\<exists>m. normalize src now1 rnd now2 rawData = Inr m \<and> source m = src \<and> \<not> sanitized m \<and>
     (src = Telegram \<and> \<not> truthy (field_of rawData ''message'') \<longrightarrow>
        content m = JStr [] \<and> title m = JUndefined \<and> author m = JUndefined \<and> metadata m = []) \<and>
     (src = Github \<and> \<not> truthy (field_of rawData ''issue'') \<longrightarrow>
        content m = JStr [] \<and> title m = JUndefined \<and> author m = JUndefined \<and> metadata m = []) \<and>
     ((src = Api \<or> src = Internal) \<and> \<not> truthy (field_of rawData ''content'') \<and>
        \<not> truthy (field_of rawData ''message'') \<longrightarrow> content m = JStr [])"
proof -
  from assms have n: "\<not> nullish rawData" by (cases rawData) simp_all
  show ?thesis
  proof (cases src)
    case Telegram
    from telegram_case_ok [OF n] obtain f where "telegram_case rawData = Inr f"
      "\<not> truthy (field_of rawData ''message'') \<longrightarrow> f = initial_fields" by blast
    then show ?thesis using Telegram by (auto simp: normalize_def initial_fields_def)
  next
    case Github
    from github_case_ok [OF n] obtain f where "github_case rawData = Inr f"
      "\<not> truthy (field_of rawData ''issue'') \<longrightarrow> f = initial_fields" by blast
    then show ?thesis using Github by (auto simp: normalize_def initial_fields_def)
  next
    case Api
    from api_case_ok [OF n, of False] obtain f where "api_case False rawData = Inr f"
      "\<not> truthy (field_of rawData ''content'') \<and> \<not> truthy (field_of rawData ''message'') \<longrightarrow> f_content f = JStr []"
      by blast
    then show ?thesis using Api by (auto simp: normalize_def)
  next
    case Internal
    from api_case_ok [OF n, of True] obtain f where "api_case True rawData = Inr f"
      "\<not> truthy (field_of rawData ''content'') \<and> \<not> truthy (field_of rawData ''message'') \<longrightarrow> f_content f = JStr []"
      by blast
    then show ?thesis using Internal by (auto simp: normalize_def)
  qed
qed

lemmas normalize_eval = normalize_def telegram_case_def github_case_def api_case_def
  initial_fields_def opt_get_def js_or_def spread_def field_of_def show_nat.simps Let_def

theorem normalize_total_on_defined_payloads_witness:
  "normalize Telegram 1700 ''k3j9x0q1z'' 1700 (JObj [(''update_id'', JNum 7)])
     = Inr \<lparr>msgId = ''telegram_1700_k3j9x0q1z'', source = Telegram,
            timestamp = 1700, title = JUndefined, content = JStr [],
            author = JUndefined, metadata = [], sanitized = False\<rparr> \<and>
   content (projr (normalize Github 5 ''r'' 5 (JObj [(''action'', JStr ''opened'')]))) = JStr []"
  using normalize_total_on_defined_payloads [of "JObj [(''update_id'', JNum 7)]" Telegram
      1700 "''k3j9x0q1z''" 1700]
    normalize_total_on_defined_payloads [of "JObj [(''action'', JStr ''opened'')]" Github 5 "''r''" 5]
  by (simp add: normalize_eval)

text \<open>
  Claim C7 as stated also covers \<open>null\<close> and \<open>undefined\<close>; on these \<open>normalize\<close> throws
  for each of the four sources, at its first read of a property of \<open>rawData\<close>.
\<close>

theorem normalize_throws_on_null:
  "normalize Telegram 5 ''r'' 5 JNull = Inl TypeError \<and>
   normalize Github 5 ''r'' 5 JUndefined = Inl TypeError \<and>
   normalize Api 5 ''r'' 5 JNull = Inl TypeError \<and>
   normalize Internal 5 ''r'' 5 JUndefined = Inl TypeError"
  by (simp add: normalize_eval)


section \<open>Properties of the matcher\<close>

lemma set_counts: "set (counts lo n) = {lo..n}"
  by (induction n) (auto simp: le_Suc_eq)

lemma matches_suffix: "(g, r) \<in> set (matches re s) \<Longrightarrow> \<exists>u. s = u @ r"
proof (induction re arbitrary: s g r)
  case (Cls p)
  then show ?case by (cases s) (auto simp: matches.simps split: if_splits)
next
  case (Rep p lo hi)
  then obtain k where "r = drop k s" by (auto simp: matches.simps Let_def)
  then have "s = take k s @ r" by simp
  then show ?case ..
next
  case (Seq a b)
  then obtain g1 s1 g2 where "(g1, s1) \<in> set (matches a s)" "(g2, r) \<in> set (matches b s1)"
    by (auto simp: matches.simps)
  with Seq.IH obtain u v where "s = u @ s1" "s1 = v @ r" by blast
  then have "s = (u @ v) @ r" by simp
  then show ?case ..
next
  case (Alt a b)
  then show ?case by (auto simp: matches.simps)
next
  case (Grp a)
  then show ?case by (auto simp: matches.simps)
qed

lemma exec_SomeD: "exec re s = Some (m, gs, rest) \<Longrightarrow> s = m @ rest"
proof -
  assume a: "exec re s = Some (m, gs, rest)"
  then obtain tl where ms: "matches re s = (gs, rest) # tl" and m: "m = take (length s - length rest) s"
    by (auto simp: exec_def split: list.splits)
  then have "(gs, rest) \<in> set (matches re s)" by simp
  then obtain u where "s = u @ rest" using matches_suffix by blast
  with m show ?thesis by simp
qed

lemma exec_None_iff: "exec re s = None \<longleftrightarrow> matches re s = []"
  by (auto simp: exec_def split: list.splits)

lemma replace_all_no_match:
  "(\<And>k. exec re (drop k s) = None) \<Longrightarrow> replace_all re f s = s"
proof (induction s)
  case Nil
  from Nil [of 0] show ?case by simp
next
  case (Cons c cs)
  from Cons.prems [of 0] have h: "exec re (c # cs) = None" by simp
  have "\<And>k. exec re (drop k cs) = None" using Cons.prems [of "Suc _"] by simp
  with Cons.IH h show ?case by simp
qed

lemma replace_all_skip_prefix:
  "(\<And>k. k < length pre \<Longrightarrow> exec re (drop k pre @ t) = None) \<Longrightarrow>
   replace_all re f (pre @ t) = pre @ replace_all re f t"
proof (induction pre)
  case Nil
  show ?case by simp
next
  case (Cons c cs)
  from Cons.prems [of 0] have h: "exec re (c # cs @ t) = None" by simp
  have "\<And>k. k < length cs \<Longrightarrow> exec re (drop k cs @ t) = None"
    using Cons.prems [of "Suc _"] by simp
  with Cons.IH h show ?case by simp
qed

lemma replace_all_at_match:
  assumes "exec re s = Some (m, gs, rest)" "m \<noteq> []"
  shows "replace_all re f s = f m gs @ replace_all re f rest"
proof -
  from assms have s: "s = m @ rest" by (simp add: exec_SomeD)
  with assms(2) obtain c cs where c: "s = c # cs" by (cases m) auto
  from s assms(2) have "length rest < length s" by (cases m) auto
  with assms(1) c show ?thesis by simp
qed

lemma seq_fail:
  "(\<And>g r. (g, r) \<in> set (matches a s) \<Longrightarrow> matches b r = []) \<Longrightarrow> matches (Seq a b) s = []"
  by (simp add: matches.simps) auto

lemma cls_absent: "\<forall>c \<in> set s. \<not> p c \<Longrightarrow> matches (Cls p) s = []"
  by (cases s) (auto simp: matches.simps)

lemma seq_fail_left: "matches a s = [] \<Longrightarrow> matches (Seq a b) s = []"
  by (simp add: matches.simps)

lemma grp_fail: "matches a s = [] \<Longrightarrow> matches (Grp a) s = []"
  by (simp add: matches.simps)

lemma seq_cls_absent:
  assumes "\<forall>c \<in> set s. \<not> p c"
  shows "matches (Seq a (Seq (Cls p) b)) s = []"
proof (rule seq_fail)
  fix g r
  assume "(g, r) \<in> set (matches a s)"
  then obtain u where "s = u @ r" using matches_suffix by blast
  with assms have "\<forall>c \<in> set r. \<not> p c" by auto
  then have "matches (Cls p) r = []" by (rule cls_absent)
  then show "matches (Seq (Cls p) b) r = []" by (rule seq_fail_left)
qed

lemma token_re_needs_colon:
  assumes "\<forall>c \<in> set s. \<not> is_assign c"
  shows "matches token_re s = []"
  unfolding token_re_def
proof (rule seq_fail)
  fix g r
  assume "(g, r) \<in> set (matches (Alt (word_ci ''token'')
         (Alt (Seq (word_ci ''api'') (Seq (opt is_join) (word_ci ''key'')))
         (Alt (word_ci ''secret'')
         (Alt (word_ci ''password'')
         (Alt (word_ci ''passwd'') (word_ci ''pwd'')))))) s)"
  then obtain u where "s = u @ r" using matches_suffix by blast
  with assms have "\<forall>c \<in> set r. \<not> is_assign c" by auto
  then show "matches (Seq (Rep is_space 0 None) (Seq (Cls is_assign)
      (Seq (Rep is_space 0 None) (Grp (Rep is_token_char 20 None))))) r = []"
    by (rule seq_cls_absent)
qed

lemma email_re_needs_at:
  assumes "CHR ''@'' \<notin> set s"
  shows "matches email_re s = []"
  unfolding email_re_def
  by (rule seq_cls_absent) (use assms in auto)

lemma digit_rep_fails: "\<forall>c \<in> set s. \<not> is_digit c \<Longrightarrow> matches (Rep is_digit (Suc lo) hi) s = []"
proof -
  assume a: "\<forall>c \<in> set s. \<not> is_digit c"
  then have "takeWhile is_digit s = []" by (cases s) auto
  then show ?thesis by (cases hi) (simp_all add: matches.simps Let_def)
qed

lemma phone_re_needs_digit:
  assumes "\<forall>c \<in> set s. \<not> is_digit c"
  shows "matches phone_re s = []"
proof -
  have "matches (Seq (opt (\<lambda>c. c = CHR ''+'')) (Seq (Rep is_digit 1 (Some 3)) R)) s = []" for R
  proof (rule seq_fail)
    fix g r
    assume "(g, r) \<in> set (matches (opt (\<lambda>c. c = CHR ''+'')) s)"
    then obtain u where "s = u @ r" using matches_suffix by blast
    with assms have "\<forall>c \<in> set r. \<not> is_digit c" by auto
    then have "matches (Rep is_digit (Suc 0) (Some 3)) r = []" by (rule digit_rep_fails)
    then show "matches (Seq (Rep is_digit 1 (Some 3)) R) r = []" by (simp add: seq_fail_left)
  qed
  then show ?thesis unfolding phone_re_def by (rule grp_fail)
qed

lemma token_pass_id:
  assumes "\<forall>c \<in> set s. \<not> is_assign c"
  shows "replace_all token_re f s = s"
proof (rule replace_all_no_match)
  fix k
  from assms have "\<forall>c \<in> set (drop k s). \<not> is_assign c" by (auto dest: in_set_dropD)
  then show "exec token_re (drop k s) = None"
    unfolding exec_None_iff by (rule token_re_needs_colon)
qed

lemma email_pass_id:
  assumes "CHR ''@'' \<notin> set s"
  shows "replace_all email_re f s = s"
proof (rule replace_all_no_match)
  fix k
  from assms have "CHR ''@'' \<notin> set (drop k s)" by (auto dest: in_set_dropD)
  then show "exec email_re (drop k s) = None"
    unfolding exec_None_iff by (rule email_re_needs_at)
qed

lemma phone_pass_id:
  assumes "\<forall>c \<in> set s. \<not> is_digit c"
  shows "replace_all phone_re f s = s"
proof (rule replace_all_no_match)
  fix k
  from assms have "\<forall>c \<in> set (drop k s). \<not> is_digit c" by (auto dest: in_set_dropD)
  then show "exec phone_re (drop k s) = None"
    unfolding exec_None_iff by (rule phone_re_needs_digit)
qed


section \<open>The phone pattern on a run of digits\<close>

lemma needs_digit_rep: "needs_digit (Rep is_digit (Suc lo) hi)"
  by (simp add: needs_digit_def digit_free_def digit_rep_fails)

lemma needs_digit_seq: "needs_digit a \<Longrightarrow> needs_digit (Seq a b)"
  by (simp add: needs_digit_def seq_fail_left)

lemma needs_digit_opt:
  assumes "needs_digit R"
  shows "needs_digit (Seq (opt p) R)"
  unfolding needs_digit_def
proof (intro allI impI)
  fix u
  assume u: "digit_free u"
  show "matches (Seq (opt p) R) u = []"
  proof (rule seq_fail)
    fix g r
    assume "(g, r) \<in> set (matches (opt p) u)"
    then obtain v where "u = v @ r" using matches_suffix by blast
    with u have "digit_free r" by (auto simp: digit_free_def)
    with assms show "matches R r = []" by (simp add: needs_digit_def)
  qed
qed

lemma all_digits_drop: "all_digits ds \<Longrightarrow> all_digits (drop k ds)"
  by (auto simp: all_digits_def dest: in_set_dropD)

lemma takeWhile_digit_run:
  "all_digits ds \<Longrightarrow> digit_free post \<Longrightarrow> takeWhile is_digit (ds @ post) = ds"
  by (cases post) (auto simp: all_digits_def digit_free_def takeWhile_append2)

lemma map_pair_id: "map (\<lambda>(g2, y). ([] @ g2, y)) xs = xs"
  by (induction xs) auto

lemma opt_transparent:
  assumes "needs_digit R" "\<And>c. is_digit c \<Longrightarrow> \<not> p c" "all_digits ds" "digit_free post"
  shows "matches (Seq (opt p) R) (ds @ post) = matches R (ds @ post)"
proof (cases ds)
  case Nil
  with assms(4) have "matches R (ds @ post) = []" using assms(1) by (simp add: needs_digit_def)
  moreover from Nil assms(4) have "matches (Seq (opt p) R) (ds @ post) = []"
    using needs_digit_opt [OF assms(1), of p] by (simp add: needs_digit_def)
  ultimately show ?thesis by simp
next
  case (Cons d ds')
  with assms(3) have "is_digit d" by (simp add: all_digits_def)
  then have "\<not> p d" by (rule assms(2))
  then have "matches (opt p) (ds @ post) = [([], ds @ post)]"
    using Cons by (simp add: opt_def matches.simps)
  then show ?thesis by (simp add: matches.simps map_pair_id)
qed

lemma digits_then:
  assumes "all_digits ds" "digit_free post"
  shows "matches (Seq (Rep is_digit lo (Some hi)) R) (ds @ post) =
         concat (map (\<lambda>k. matches R (drop k ds @ post)) (counts lo (min hi (length ds))))"
proof -
  have e: "map (\<lambda>k. matches R (drop k (ds @ post))) (counts lo (min hi (length ds)))
      = map (\<lambda>k. matches R (drop k ds @ post)) (counts lo (min hi (length ds)))"
    by (rule map_cong) (auto simp: set_counts)
  have m: "matches (Seq (Rep is_digit lo (Some hi)) R) (ds @ post) =
      concat (map (\<lambda>k. matches R (drop k (ds @ post))) (counts lo (min hi (length ds))))"
    using takeWhile_digit_run [OF assms]
    by (simp add: matches.simps Let_def comp_def map_pair_id del: drop_append)
  show ?thesis by (simp only: m e)
qed

lemma digits_last:
  assumes "all_digits ds" "digit_free post"
  shows "matches (Rep is_digit lo (Some hi)) (ds @ post) =
         map (\<lambda>k. ([], drop k ds @ post)) (counts lo (min hi (length ds)))"
proof -
  have e: "map (\<lambda>k. ([] :: string list, drop k (ds @ post))) (counts lo (min hi (length ds)))
      = map (\<lambda>k. ([], drop k ds @ post)) (counts lo (min hi (length ds)))"
    by (rule map_cong) (auto simp: set_counts)
  have m: "matches (Rep is_digit lo (Some hi)) (ds @ post) =
      map (\<lambda>k. ([] :: string list, drop k (ds @ post))) (counts lo (min hi (length ds)))"
    using takeWhile_digit_run [OF assms] by (simp add: matches.simps Let_def del: drop_append)
  show ?thesis by (simp only: m e)
qed

lemma needs_digit_rep1: "needs_digit (Rep is_digit 1 hi)"
  using needs_digit_rep [of 0 hi] by simp

lemma digit_not_sep: "is_digit c \<Longrightarrow> \<not> is_sep c"
  by (auto simp: is_digit_def is_sep_def is_space_def)

lemma digit_not_plus: "is_digit c \<Longrightarrow> \<not> c = CHR ''+''"
  by (auto simp: is_digit_def)

lemma digit_not_open: "is_digit c \<Longrightarrow> \<not> c = CHR ''(''"
  by (auto simp: is_digit_def)

lemma digit_not_close: "is_digit c \<Longrightarrow> \<not> c = CHR '')''"
  by (auto simp: is_digit_def)

lemma phone_body_run:
  assumes ds: "all_digits ds" and post: "digit_free post"
  shows "matches phone_body (ds @ post) =
         map (\<lambda>k. ([], drop k ds @ post)) (phone_paths (length ds))"
proof -
  let ?T9 = "Rep is_digit 1 (Some 9)"
  let ?T8 = "Seq (opt is_sep) ?T9"
  let ?T7 = "Seq (Rep is_digit 1 (Some 4)) ?T8"
  let ?T6 = "Seq (opt is_sep) ?T7"
  let ?T5 = "Seq (opt (\<lambda>c. c = CHR '')'')) ?T6"
  let ?T4 = "Seq (Rep is_digit 1 (Some 4)) ?T5"
  let ?T3 = "Seq (opt (\<lambda>c. c = CHR ''('')) ?T4"
  let ?T2 = "Seq (opt is_sep) ?T3"
  let ?T1 = "Seq (Rep is_digit 1 (Some 3)) ?T2"
  have n9: "needs_digit ?T9" by (rule needs_digit_rep1)
  have n7: "needs_digit ?T7" by (rule needs_digit_seq) (rule needs_digit_rep1)
  have n6: "needs_digit ?T6" by (rule needs_digit_opt) (rule n7)
  have n4: "needs_digit ?T4" by (rule needs_digit_seq) (rule needs_digit_rep1)
  have n3: "needs_digit ?T3" by (rule needs_digit_opt) (rule n4)
  have n1: "needs_digit ?T1" by (rule needs_digit_seq) (rule needs_digit_rep1)
  have m8: "matches ?T8 (xs @ post) =
      map (\<lambda>k. ([], drop k xs @ post)) (counts 1 (min 9 (length xs)))" if "all_digits xs" for xs
    using opt_transparent [OF n9 digit_not_sep that post] digits_last [OF that post] by simp
  have m7: "matches ?T7 (xs @ post) =
      concat (map (\<lambda>k3. map (\<lambda>k4. ([], drop (k3 + k4) xs @ post))
                (counts 1 (min 9 (length xs - k3)))) (counts 1 (min 4 (length xs))))"
    if "all_digits xs" for xs
    using digits_then [OF that post, of 1 4 ?T8] m8 [OF all_digits_drop [OF that]]
    by (simp add: add.commute)
  have m5: "matches ?T5 (xs @ post) = matches ?T7 (xs @ post)" if "all_digits xs" for xs
    using opt_transparent [OF n6 digit_not_close that post] opt_transparent [OF n7 digit_not_sep that post]
    by simp
  have m4: "matches ?T4 (xs @ post) =
      concat (map (\<lambda>k2. concat (map (\<lambda>k3. map (\<lambda>k4. ([], drop (k2 + k3 + k4) xs @ post))
                (counts 1 (min 9 (length xs - k2 - k3)))) (counts 1 (min 4 (length xs - k2)))))
              (counts 1 (min 4 (length xs))))"
    if "all_digits xs" for xs
    using digits_then [OF that post, of 1 4 ?T5] m5 [OF all_digits_drop [OF that]]
      m7 [OF all_digits_drop [OF that]]
    by (simp add: add.commute add.left_commute)
  have m2: "matches ?T2 (xs @ post) = matches ?T4 (xs @ post)" if "all_digits xs" for xs
    using opt_transparent [OF n3 digit_not_sep that post] opt_transparent [OF n4 digit_not_open that post]
    by simp
  have m1: "matches ?T1 (ds @ post) =
      concat (map (\<lambda>k1. concat (map (\<lambda>k2. concat (map (\<lambda>k3.
                map (\<lambda>k4. ([], drop (k1 + k2 + k3 + k4) ds @ post))
                (counts 1 (min 9 (length ds - k1 - k2 - k3)))) (counts 1 (min 4 (length ds - k1 - k2)))))
              (counts 1 (min 4 (length ds - k1))))) (counts 1 (min 3 (length ds))))"
    using digits_then [OF ds post, of 1 3 ?T2] m2 [OF all_digits_drop [OF ds]]
      m4 [OF all_digits_drop [OF ds]]
    by (simp add: add.commute add.left_commute)
  have m0: "matches phone_body (ds @ post) = matches ?T1 (ds @ post)"
    unfolding phone_body_def by (rule opt_transparent [OF n1 digit_not_plus ds post])
  show ?thesis
    unfolding m0 m1 phone_paths_def by (simp add: map_concat comp_def)
qed

lemma phone_paths_hd: "\<forall>n \<in> set [4..<21]. phone_paths n \<noteq> [] \<and> hd (phone_paths n) = n"
  by code_simp

lemma phone_re_body: "phone_re = Grp phone_body"
  by (simp add: phone_re_def phone_body_def)

lemma phone_exec_digit_run:
  assumes ds: "all_digits ds" and post: "digit_free post"
    and len: "4 \<le> length ds" "length ds \<le> 20"
  shows "exec phone_re (ds @ post) = Some (ds, [ds], post)"
proof -
  from len have "length ds \<in> set [4..<21]" by (simp only: set_upt atLeastLessThan_iff) arith
  with phone_paths_hd have "phone_paths (length ds) \<noteq> []" "hd (phone_paths (length ds)) = length ds"
    by blast+
  then obtain ks where ks: "phone_paths (length ds) = length ds # ks"
    by (cases "phone_paths (length ds)") auto
  have "matches phone_body (ds @ post) = ([], post) # map (\<lambda>k. ([], drop k ds @ post)) ks"
    unfolding phone_body_run [OF ds post] ks by simp
  then have "matches phone_re (ds @ post) =
      ([ds], post) # map (\<lambda>(g, s1). (take (length (ds @ post) - length s1) (ds @ post) # g, s1))
                       (map (\<lambda>k. ([], drop k ds @ post)) ks)"
    unfolding phone_re_body by (simp add: matches.simps)
  then show ?thesis by (simp add: exec_def)
qed

lemma exec_cls: "exec (Cls p) (c # cs) = (if p c then Some ([c], [], cs) else None)"
  by (simp add: exec_def matches.simps)

lemma exec_cls_nil: "exec (Cls p) [] = None"
  by (simp add: exec_def matches.simps)

lemma replace_all_cls_del: "replace_all (Cls p) (\<lambda>_ _. []) s = filter (\<lambda>c. \<not> p c) s"
  by (induction s) (simp_all add: exec_cls exec_cls_nil)

lemma mask_phone_digits:
  assumes "all_digits ds"
  shows "mask_phone ds gs =
         (if length ds > 4 then take 2 ds @ ''****'' @ drop (length ds - 2) ds else ''****'')"
proof -
  from assms have "filter (\<lambda>c. \<not> \<not> is_digit c) ds = ds" by (simp add: all_digits_def)
  then show ?thesis by (simp add: mask_phone_def replace_all_cls_del Let_def)
qed

lemma digit_rep_fail_hd: "\<not> is_digit c \<Longrightarrow> matches (Rep is_digit (Suc 0) hi) (c # r) = []"
  by (cases hi) (simp_all add: matches.simps Let_def)

lemma phone_no_start:
  assumes "\<not> is_digit c" "c = CHR ''+'' \<Longrightarrow> \<exists>d r. rest = d # r \<and> \<not> is_digit d"
  shows "exec phone_re (c # rest) = None"
proof -
  have "matches phone_body (c # rest) = []"
    unfolding phone_body_def
  proof (rule seq_fail)
    fix g r
    assume "(g, r) \<in> set (matches (opt (\<lambda>c. c = CHR ''+'')) (c # rest))"
    then have "r = c # rest \<or> (c = CHR ''+'' \<and> r = rest)"
      by (auto simp: opt_def matches.simps Let_def split: if_splits)
    then have "matches (Rep is_digit 1 (Some 3)) r = []"
    proof
      assume "r = c # rest"
      with assms(1) show ?thesis by (simp add: digit_rep_fail_hd)
    next
      assume a: "c = CHR ''+'' \<and> r = rest"
      with assms(2) obtain d r' where "rest = d # r'" "\<not> is_digit d" by blast
      with a show ?thesis by (simp add: digit_rep_fail_hd)
    qed
    then show "matches (Seq (Rep is_digit 1 (Some 3)) (Seq (opt is_sep)
         (Seq (opt (\<lambda>c. c = CHR ''(''))
         (Seq (Rep is_digit 1 (Some 4))
         (Seq (opt (\<lambda>c. c = CHR '')''))
         (Seq (opt is_sep)
         (Seq (Rep is_digit 1 (Some 4))
         (Seq (opt is_sep)
              (Rep is_digit 1 (Some 9)))))))))) r = []"
      by (rule seq_fail_left)
  qed
  then show ?thesis by (simp add: exec_None_iff phone_re_body grp_fail)
qed

text \<open>
  Claim C10, amended. In a text whose other characters are no digits and none of
  \<open>:\<close>, \<open>=\<close>, \<open>@\<close>, and in which no \<open>+\<close> stands right before the run, a run of exactly
  four digits is replaced by \<open>****\<close> and a run of five to twenty digits by its first
  two digits, \<open>****\<close> and its last two digits; the rest of the text is unchanged. So a
  bare year or a counter is masked like a phone number.
\<close>

theorem digit_run_masked:
  assumes ds: "\<forall>c \<in> set ds. is_digit c" and len: "4 \<le> length ds" "length ds \<le> 20"
    and ctx: "\<forall>c \<in> set (pre @ post). \<not> is_digit c \<and> \<not> is_assign c \<and> c \<noteq> CHR ''@''"
    and plus: "pre = [] \<or> last pre \<noteq> CHR ''+''"
  shows "hideSensitive (pre @ ds @ post) =
         pre @ (if length ds = 4 then ''****''
                else take 2 ds @ ''****'' @ drop (length ds - 2) ds) @ post"
proof -
  let ?text = "pre @ ds @ post"
  have dc: "\<not> is_assign c \<and> c \<noteq> CHR ''@''" if "is_digit c" for c
    using that by (auto simp: is_digit_def is_assign_def)
  have ok: "\<not> is_assign c \<and> c \<noteq> CHR ''@''" if "c \<in> set ?text" for c
  proof -
    from that consider "c \<in> set ds" | "c \<in> set (pre @ post)" by auto
    then show ?thesis
    proof cases
      case 1
      with ds show ?thesis by (intro dc) blast
    next
      case 2
      with ctx show ?thesis by blast
    qed
  qed
  have nocolon: "\<forall>c \<in> set ?text. \<not> is_assign c" using ok by blast
  have noat: "CHR ''@'' \<notin> set ?text" using ok by blast
  have t: "replace_all token_re mask_token ?text = ?text" by (rule token_pass_id [OF nocolon])
  have e: "replace_all email_re mask_email ?text = ?text" by (rule email_pass_id [OF noat])
  have ad: "all_digits ds" using ds by (simp add: all_digits_def)
  have df: "digit_free post" using ctx by (simp add: digit_free_def)
  have skip: "exec phone_re (drop k pre @ ds @ post) = None" if k: "k < length pre" for k
  proof -
    from k have d: "drop k pre = pre ! k # drop (Suc k) pre" by (simp add: Cons_nth_drop_Suc)
    from k ctx have nd: "\<not> is_digit (pre ! k)" by simp
    have "\<exists>d r. drop (Suc k) pre @ ds @ post = d # r \<and> \<not> is_digit d" if c: "pre ! k = CHR ''+''"
    proof (cases "Suc k < length pre")
      case True
      then have "drop (Suc k) pre = pre ! Suc k # drop (Suc (Suc k)) pre"
        by (simp add: Cons_nth_drop_Suc)
      moreover from True ctx have "\<not> is_digit (pre ! Suc k)" by simp
      ultimately show ?thesis by simp
    next
      case False
      with k have "Suc k = length pre" by simp
      then have "take (Suc k) pre = pre" by simp
      moreover have "take (Suc k) pre = take k pre @ [pre ! k]"
        using k by (rule take_Suc_conv_app_nth)
      ultimately have "pre = take k pre @ [pre ! k]" by simp
      with c have "pre = take k pre @ ''+''" by simp
      then have "pre \<noteq> [] \<and> last pre = CHR ''+''"
        by (metis last_snoc snoc_eq_iff_butlast)
      with plus show ?thesis by blast
    qed
    with nd show ?thesis unfolding d append_Cons by (intro phone_no_start) blast+
  qed
  have p1: "replace_all phone_re mask_phone ?text = pre @ replace_all phone_re mask_phone (ds @ post)"
    by (rule replace_all_skip_prefix) (rule skip)
  from len have "ds \<noteq> []" by auto
  then have p2: "replace_all phone_re mask_phone (ds @ post) =
      mask_phone ds [ds] @ replace_all phone_re mask_phone post"
    by (rule replace_all_at_match [OF phone_exec_digit_run [OF ad df len]])
  have p3: "replace_all phone_re mask_phone post = post"
    by (rule phone_pass_id) (use df in \<open>simp add: digit_free_def\<close>)
  have "hideSensitive ?text = replace_all phone_re mask_phone
      (replace_all email_re mask_email (replace_all token_re mask_token ?text))"
    by (simp only: hideSensitive_def Let_def)
  also have "\<dots> = pre @ mask_phone ds [ds] @ post"
    by (simp only: t e p1 p2 p3)
  also have "mask_phone ds [ds] = (if length ds = 4 then ''****''
                else take 2 ds @ ''****'' @ drop (length ds - 2) ds)"
    using len by (simp add: mask_phone_digits [OF ad])
  finally show ?thesis .
qed


section \<open>The credential pattern in front of its keyword\<close>

lemma seq_matchD:
  "(g, r) \<in> set (matches (Seq a b) s) \<Longrightarrow>
   \<exists>g1 s1 g2. (g1, s1) \<in> set (matches a s) \<and> (g2, r) \<in> set (matches b s1) \<and> g = g1 @ g2"
  by (auto simp: matches.simps)

lemma alt_matchD:
  "(g, r) \<in> set (matches (Alt a b) s) \<Longrightarrow>
   (g, r) \<in> set (matches a s) \<or> (g, r) \<in> set (matches b s)"
  by (auto simp: matches.simps)

lemma cls_matchD: "(g, r) \<in> set (matches (Cls p) s) \<Longrightarrow> \<exists>c. s = c # r \<and> p c"
  by (cases s) (auto simp: matches.simps split: if_splits)

lemma rep_matchD:
  "(g, r) \<in> set (matches (Rep p lo hi) s) \<Longrightarrow>
   \<exists>k. r = drop k s \<and> lo \<le> k \<and> k \<le> length (takeWhile p s) \<and>
       (case hi of None \<Rightarrow> True | Some h \<Rightarrow> k \<le> h)"
  by (cases hi) (auto simp: matches.simps Let_def set_counts)

lemma rep_match_split:
  assumes "(g, r) \<in> set (matches (Rep p lo hi) s)"
  shows "\<exists>u. s = u @ r \<and> (\<forall>c \<in> set u. p c) \<and> lo \<le> length u \<and>
             (case hi of None \<Rightarrow> True | Some h \<Rightarrow> length u \<le> h)"
proof -
  from rep_matchD [OF assms] obtain k where k: "r = drop k s" "lo \<le> k"
    "k \<le> length (takeWhile p s)" "case hi of None \<Rightarrow> True | Some h \<Rightarrow> k \<le> h" by blast
  have "take k s = take k (takeWhile p s)"
    using k(3) by (metis takeWhile_dropWhile_id take_append diff_is_0_eq take_0 append_Nil2)
  then have "\<forall>c \<in> set (take k s). p c"
    by (metis in_set_takeD set_takeWhileD)
  moreover have "s = take k s @ r" using k(1) by simp
  moreover from k(3) have "k \<le> length s"
    using length_takeWhile_le [of p s] by simp
  then have "length (take k s) = k" by simp
  ultimately show ?thesis using k(2,4) by (intro exI [of _ "take k s"]) (auto split: option.splits)
qed






lemma lower_range: "is_lower x \<Longrightarrow> 97 \<le> (of_char x :: nat) \<and> (of_char x :: nat) \<le> 122"
  by (auto simp: is_lower_def)












lemmas class_defs = is_digit_def is_lower_def is_upper_def is_alpha_def is_alnum_def is_space_def
  is_sep_def is_token_char_def is_user_char_def is_domain_char_def is_assign_def is_join_def
  same_ci_def




section \<open>Markup stripping is idempotent\<close>

lemma no_tag_drop: "no_tag s \<Longrightarrow> no_tag (drop k s)"
proof (induction s arbitrary: k)
  case Nil
  then show ?case by simp
next
  case (Cons c cs)
  then show ?case by (cases k) simp_all
qed

lemma no_entity_drop: "no_entity s \<Longrightarrow> no_entity (drop k s)"
proof (induction s arbitrary: k)
  case Nil
  then show ?case by simp
next
  case (Cons c cs)
  then show ?case by (cases k) simp_all
qed

lemma no_tag_suffix: "no_tag (u @ r) \<Longrightarrow> no_tag r"
  using no_tag_drop [of "u @ r" "length u"] by simp

lemma no_entity_suffix: "no_entity (u @ r) \<Longrightarrow> no_entity r"
  using no_entity_drop [of "u @ r" "length u"] by simp

lemma del_pass_induct [case_names Nonempty Nil Keep Drop]:
  assumes nonempty: "\<And>s m gs rest. exec r s = Some (m, gs, rest) \<Longrightarrow> m \<noteq> []"
    and nil: "Q []"
    and keep: "\<And>c cs. exec r (c # cs) = None \<Longrightarrow> Q cs \<Longrightarrow>
        replace_all r (\<lambda>_ _. []) (c # cs) = c # replace_all r (\<lambda>_ _. []) cs \<Longrightarrow> Q (c # cs)"
    and drop: "\<And>c cs m gs rest. exec r (c # cs) = Some (m, gs, rest) \<Longrightarrow> m \<noteq> [] \<Longrightarrow>
        c # cs = m @ rest \<Longrightarrow> Q rest \<Longrightarrow>
        replace_all r (\<lambda>_ _. []) (c # cs) = replace_all r (\<lambda>_ _. []) rest \<Longrightarrow> Q (c # cs)"
  shows "Q s"
proof (induction s rule: length_induct)
  case (1 s)
  show ?case
  proof (cases s)
    case Nil
    with nil show ?thesis by simp
  next
    case (Cons c cs)
    show ?thesis
    proof (cases "exec r (c # cs)")
      case None
      from 1 Cons have "Q cs" by simp
      with None show ?thesis unfolding Cons by (intro keep) simp_all
    next
      case (Some a)
      obtain m gs rest where a: "a = (m, gs, rest)" by (cases a) auto
      from Some a have e: "exec r (c # cs) = Some (m, gs, rest)" by simp
      from nonempty [OF e] have ne: "m \<noteq> []" .
      from exec_SomeD [OF e] have sp: "c # cs = m @ rest" .
      with ne have l: "length rest < length (c # cs)" by (cases m) auto
      with 1 Cons have q: "Q rest" by simp
      have eq: "replace_all r (\<lambda>_ _. []) (c # cs) = replace_all r (\<lambda>_ _. []) rest"
        using replace_all_at_match [OF e ne, of "\<lambda>_ _. []"] by simp
      show ?thesis unfolding Cons by (rule drop [OF e ne sp q eq])
    qed
  qed
qed

lemma replace_all_del_Nil:
  assumes "\<And>s m gs rest. exec r s = Some (m, gs, rest) \<Longrightarrow> m \<noteq> []"
  shows "replace_all r (\<lambda>_ _. []) [] = []"
  by (simp split: option.splits)

lemma set_replace_all_del:
  assumes ne: "\<And>s m gs rest. exec r s = Some (m, gs, rest) \<Longrightarrow> m \<noteq> []"
  shows "set (replace_all r (\<lambda>_ _. []) s) \<subseteq> set s"
proof (rule del_pass_induct [where r = r and s = s and
      Q = "\<lambda>s. set (replace_all r (\<lambda>_ _. []) s) \<subseteq> set s"])
  show "\<And>s m gs rest. exec r s = Some (m, gs, rest) \<Longrightarrow> m \<noteq> []" by (rule ne)
  show "set (replace_all r (\<lambda>_ _. []) []) \<subseteq> set []" by (simp split: option.splits)
next
  fix c cs
  assume "set (replace_all r (\<lambda>_ _. []) cs) \<subseteq> set cs"
    "replace_all r (\<lambda>_ _. []) (c # cs) = c # replace_all r (\<lambda>_ _. []) cs"
  then show "set (replace_all r (\<lambda>_ _. []) (c # cs)) \<subseteq> set (c # cs)" by auto
next
  fix c cs m gs rest
  assume "c # cs = m @ rest" "set (replace_all r (\<lambda>_ _. []) rest) \<subseteq> set rest"
    "replace_all r (\<lambda>_ _. []) (c # cs) = replace_all r (\<lambda>_ _. []) rest"
  then show "set (replace_all r (\<lambda>_ _. []) (c # cs)) \<subseteq> set (c # cs)"
    by (metis set_append Un_upper2 subset_trans)
qed

lemma no_tag_del_pass:
  assumes ne: "\<And>s m gs rest. exec r s = Some (m, gs, rest) \<Longrightarrow> m \<noteq> []"
  shows "no_tag s \<longrightarrow> no_tag (replace_all r (\<lambda>_ _. []) s)"
proof (rule del_pass_induct [where r = r and s = s and
      Q = "\<lambda>s. no_tag s \<longrightarrow> no_tag (replace_all r (\<lambda>_ _. []) s)"])
  show "\<And>s m gs rest. exec r s = Some (m, gs, rest) \<Longrightarrow> m \<noteq> []" by (rule ne)
  show "no_tag [] \<longrightarrow> no_tag (replace_all r (\<lambda>_ _. []) [])" by (simp split: option.splits)
next
  fix c cs
  assume ih: "no_tag cs \<longrightarrow> no_tag (replace_all r (\<lambda>_ _. []) cs)"
    and eq: "replace_all r (\<lambda>_ _. []) (c # cs) = c # replace_all r (\<lambda>_ _. []) cs"
  have "set (replace_all r (\<lambda>_ _. []) cs) \<subseteq> set cs" by (rule set_replace_all_del [OF ne])
  with ih show "no_tag (c # cs) \<longrightarrow> no_tag (replace_all r (\<lambda>_ _. []) (c # cs))"
    unfolding eq by auto
next
  fix c cs m gs rest
  assume sp: "c # cs = m @ rest"
    and ih: "no_tag rest \<longrightarrow> no_tag (replace_all r (\<lambda>_ _. []) rest)"
    and eq: "replace_all r (\<lambda>_ _. []) (c # cs) = replace_all r (\<lambda>_ _. []) rest"
  show "no_tag (c # cs) \<longrightarrow> no_tag (replace_all r (\<lambda>_ _. []) (c # cs))"
  proof
    assume "no_tag (c # cs)"
    then have "no_tag rest" unfolding sp by (rule no_tag_suffix)
    with ih show "no_tag (replace_all r (\<lambda>_ _. []) (c # cs))" unfolding eq by simp
  qed
qed

lemma tag_matchD:
  assumes "(g, r) \<in> set (matches tag_re s)"
  shows "\<exists>body. s = CHR ''<'' # body @ CHR ''>'' # r"
proof -
  from seq_matchD [OF assms [unfolded tag_re_def]] obtain g1 s1 g2 where
    a: "(g1, s1) \<in> set (matches (Cls (\<lambda>c. c = CHR ''<'')) s)" and
    b: "(g2, r) \<in> set (matches (Seq (Rep (\<lambda>c. c \<noteq> CHR ''>'') 0 None) (Cls (\<lambda>c. c = CHR ''>''))) s1)"
    by blast
  from seq_matchD [OF b] obtain g3 s2 g4 where
    c: "(g3, s2) \<in> set (matches (Rep (\<lambda>c. c \<noteq> CHR ''>'') 0 None) s1)" and
    d: "(g4, r) \<in> set (matches (Cls (\<lambda>c. c = CHR ''>'')) s2)" by blast
  from cls_matchD [OF a] have "s = CHR ''<'' # s1" by auto
  moreover from matches_suffix [OF c] obtain body where "s1 = body @ s2" by blast
  moreover from cls_matchD [OF d] have "s2 = CHR ''>'' # r" by auto
  ultimately show ?thesis by auto
qed

lemma first_resultD: "exec r s = Some (m, gs, rest) \<Longrightarrow> (gs, rest) \<in> set (matches r s)"
  by (auto simp: exec_def split: list.splits)

lemma tag_nonempty: "exec tag_re s = Some (m, gs, rest) \<Longrightarrow> m \<noteq> []"
proof -
  assume e: "exec tag_re s = Some (m, gs, rest)"
  from tag_matchD [OF first_resultD [OF e]] obtain body where "s = CHR ''<'' # body @ CHR ''>'' # rest"
    by blast
  moreover from exec_SomeD [OF e] have "s = m @ rest" .
  ultimately show ?thesis by auto
qed

lemma tag_exec_None:
  assumes "\<not> (c = CHR ''<'' \<and> CHR ''>'' \<in> set cs)"
  shows "exec tag_re (c # cs) = None"
proof (rule ccontr)
  assume "exec tag_re (c # cs) \<noteq> None"
  then obtain m gs rest where e: "exec tag_re (c # cs) = Some (m, gs, rest)" by auto
  from tag_matchD [OF first_resultD [OF e]] obtain body where
    "c # cs = CHR ''<'' # body @ CHR ''>'' # rest" by blast
  then have "c = CHR ''<''" "CHR ''>'' \<in> set cs" by auto
  with assms show False by simp
qed

lemma tag_exec_Some:
  assumes "CHR ''>'' \<in> set cs"
  shows "exec tag_re (CHR ''<'' # cs) \<noteq> None"
proof -
  let ?n = "length (takeWhile (\<lambda>c. c \<noteq> CHR ''>'') cs)"
  from assms have "dropWhile (\<lambda>c. c \<noteq> CHR ''>'') cs \<noteq> []" by (simp add: dropWhile_eq_Nil_conv)
  moreover have "hd (dropWhile (\<lambda>c. c \<noteq> CHR ''>'') cs) = CHR ''>''"
    using hd_dropWhile [OF calculation] by simp
  ultimately obtain r where r: "dropWhile (\<lambda>c. c \<noteq> CHR ''>'') cs = CHR ''>'' # r"
    by (cases "dropWhile (\<lambda>c. c \<noteq> CHR ''>'') cs") auto
  have d: "drop ?n cs = CHR ''>'' # r" using r by (simp add: dropWhile_eq_drop)
  have "counts 0 ?n = ?n # (if ?n = 0 then [] else counts 0 (?n - 1))"
    by (cases ?n) simp_all
  then obtain ks where ks: "counts 0 ?n = ?n # ks" by blast
  have "matches tag_re (CHR ''<'' # cs) \<noteq> []"
    by (simp add: tag_re_def matches.simps Let_def ks d)
  then show ?thesis by (simp add: exec_None_iff)
qed

lemma entity_matchD:
  assumes "(g, r) \<in> set (matches entity_re s)"
  shows "\<exists>d body. s = CHR ''&'' # d # body @ CHR '';'' # r \<and> d \<noteq> CHR '';''"
proof -
  from seq_matchD [OF assms [unfolded entity_re_def]] obtain g1 s1 g2 where
    a: "(g1, s1) \<in> set (matches (Cls (\<lambda>c. c = CHR ''&'')) s)" and
    b: "(g2, r) \<in> set (matches (Seq (Rep (\<lambda>c. c \<noteq> CHR '';'') 1 None) (Cls (\<lambda>c. c = CHR '';''))) s1)"
    by blast
  from seq_matchD [OF b] obtain g3 s2 g4 where
    c: "(g3, s2) \<in> set (matches (Rep (\<lambda>c. c \<noteq> CHR '';'') 1 None) s1)" and
    d: "(g4, r) \<in> set (matches (Cls (\<lambda>c. c = CHR '';'')) s2)" by blast
  from cls_matchD [OF a] have 1: "s = CHR ''&'' # s1" by auto
  from rep_match_split [OF c] obtain u where u: "s1 = u @ s2" "\<forall>c \<in> set u. c \<noteq> CHR '';''"
    "1 \<le> length u" by auto
  from u(3) obtain d body where db: "u = d # body" by (cases u) auto
  from cls_matchD [OF d] have 2: "s2 = CHR '';'' # r" by auto
  from 1 2 u db show ?thesis by auto
qed

lemma entity_nonempty: "exec entity_re s = Some (m, gs, rest) \<Longrightarrow> m \<noteq> []"
proof -
  assume e: "exec entity_re s = Some (m, gs, rest)"
  from entity_matchD [OF first_resultD [OF e]] obtain d body where
    "s = CHR ''&'' # d # body @ CHR '';'' # rest" by blast
  moreover from exec_SomeD [OF e] have "s = m @ rest" .
  ultimately show ?thesis by auto
qed

lemma entity_exec_None:
  assumes "\<not> (c = CHR ''&'' \<and> (\<exists>d ds. cs = d # ds \<and> d \<noteq> CHR '';'' \<and> CHR '';'' \<in> set ds))"
  shows "exec entity_re (c # cs) = None"
proof (rule ccontr)
  assume "exec entity_re (c # cs) \<noteq> None"
  then obtain m gs rest where e: "exec entity_re (c # cs) = Some (m, gs, rest)" by auto
  from entity_matchD [OF first_resultD [OF e]] obtain d body where
    "c # cs = CHR ''&'' # d # body @ CHR '';'' # rest" "d \<noteq> CHR '';''" by blast
  then have "c = CHR ''&''" "cs = d # (body @ CHR '';'' # rest)" "d \<noteq> CHR '';''"
    "CHR '';'' \<in> set (body @ CHR '';'' # rest)" by auto
  with assms show False by blast
qed

lemma entity_exec_Nil: "exec entity_re [] = None"
  by (simp add: exec_None_iff entity_re_def matches.simps)

lemma tag_exec_Nil: "exec tag_re [] = None"
  by (simp add: exec_None_iff tag_re_def matches.simps)

lemma entity_exec_Some:
  assumes "d \<noteq> CHR '';''" "CHR '';'' \<in> set ds"
  shows "exec entity_re (CHR ''&'' # d # ds) \<noteq> None"
proof -
  let ?p = "\<lambda>c. c \<noteq> CHR '';''"
  let ?n = "length (takeWhile ?p (d # ds))"
  from assms(2) have "dropWhile ?p (d # ds) \<noteq> []" by (simp add: dropWhile_eq_Nil_conv)
  moreover have "hd (dropWhile ?p (d # ds)) = CHR '';''"
    using hd_dropWhile [OF calculation] by simp
  ultimately obtain r where r: "dropWhile ?p (d # ds) = CHR '';'' # r"
    by (cases "dropWhile ?p (d # ds)") auto
  have dr: "drop ?n (d # ds) = CHR '';'' # r" using r by (simp add: dropWhile_eq_drop)
  from assms(1) have "1 \<le> ?n" by simp
  then obtain k where k: "?n = Suc k" by (cases ?n) auto
  then have "counts 1 ?n = ?n # counts 1 k" by simp
  then obtain ks where ks: "counts 1 ?n = ?n # ks" by blast
  have "matches entity_re (CHR ''&'' # d # ds) \<noteq> []"
    using ks dr by (simp add: entity_re_def matches.simps Let_def del: takeWhile.simps drop.simps counts.simps)
  then show ?thesis by (simp add: exec_None_iff)
qed

lemma no_tag_strip: "no_tag (replace_all tag_re (\<lambda>_ _. []) s)"
proof (rule del_pass_induct [where r = tag_re and s = s and
      Q = "\<lambda>s. no_tag (replace_all tag_re (\<lambda>_ _. []) s)"])
  show "\<And>s m gs rest. exec tag_re s = Some (m, gs, rest) \<Longrightarrow> m \<noteq> []" by (rule tag_nonempty)
  show "no_tag (replace_all tag_re (\<lambda>_ _. []) [])" by (simp add: tag_exec_Nil)
next
  fix c cs
  assume none: "exec tag_re (c # cs) = None"
    and ih: "no_tag (replace_all tag_re (\<lambda>_ _. []) cs)"
    and eq: "replace_all tag_re (\<lambda>_ _. []) (c # cs) = c # replace_all tag_re (\<lambda>_ _. []) cs"
  from none have "c = CHR ''<'' \<longrightarrow> CHR ''>'' \<notin> set cs" using tag_exec_Some by blast
  moreover have "set (replace_all tag_re (\<lambda>_ _. []) cs) \<subseteq> set cs"
    by (rule set_replace_all_del [OF tag_nonempty])
  ultimately show "no_tag (replace_all tag_re (\<lambda>_ _. []) (c # cs))" unfolding eq using ih by auto
next
  fix c cs m gs rest
  assume "no_tag (replace_all tag_re (\<lambda>_ _. []) rest)"
    "replace_all tag_re (\<lambda>_ _. []) (c # cs) = replace_all tag_re (\<lambda>_ _. []) rest"
  then show "no_tag (replace_all tag_re (\<lambda>_ _. []) (c # cs))" by simp
qed

lemma no_entity_strip: "no_entity (replace_all entity_re (\<lambda>_ _. []) s)"
proof (rule del_pass_induct [where r = entity_re and s = s and
      Q = "\<lambda>s. no_entity (replace_all entity_re (\<lambda>_ _. []) s)"])
  show "\<And>s m gs rest. exec entity_re s = Some (m, gs, rest) \<Longrightarrow> m \<noteq> []" by (rule entity_nonempty)
  show "no_entity (replace_all entity_re (\<lambda>_ _. []) [])" by (simp add: entity_exec_Nil)
next
  fix c cs
  let ?E = "replace_all entity_re (\<lambda>_ _. [])"
  assume none: "exec entity_re (c # cs) = None"
    and ih: "no_entity (?E cs)"
    and eq: "?E (c # cs) = c # ?E cs"
  have "case ?E cs of [] \<Rightarrow> True | d # ds \<Rightarrow> d = CHR '';'' \<or> CHR '';'' \<notin> set ds" if c: "c = CHR ''&''"
  proof (cases cs)
    case Nil
    then show ?thesis by (simp add: entity_exec_Nil)
  next
    case (Cons d ds)
    show ?thesis
    proof (cases "d = CHR '';''")
      case True
      then have "exec entity_re (d # ds) = None" by (intro entity_exec_None) simp
      with Cons True show ?thesis by simp
    next
      case False
      with none c Cons have "CHR '';'' \<notin> set ds" using entity_exec_Some by blast
      with False Cons have "CHR '';'' \<notin> set cs" by simp
      moreover have "set (?E cs) \<subseteq> set cs" by (rule set_replace_all_del [OF entity_nonempty])
      ultimately have "CHR '';'' \<notin> set (?E cs)" by blast
      then show ?thesis by (cases "?E cs") auto
    qed
  qed
  with ih show "no_entity (?E (c # cs))" unfolding eq by simp
next
  fix c cs m gs rest
  assume "no_entity (replace_all entity_re (\<lambda>_ _. []) rest)"
    "replace_all entity_re (\<lambda>_ _. []) (c # cs) = replace_all entity_re (\<lambda>_ _. []) rest"
  then show "no_entity (replace_all entity_re (\<lambda>_ _. []) (c # cs))" by simp
qed

lemma no_tag_fixed: "no_tag s \<Longrightarrow> replace_all tag_re f s = s"
proof (rule replace_all_no_match)
  fix k
  assume "no_tag s"
  then have n: "no_tag (drop k s)" by (rule no_tag_drop)
  show "exec tag_re (drop k s) = None"
  proof (cases "drop k s")
    case Nil
    then show ?thesis by (simp add: tag_exec_Nil)
  next
    case (Cons c cs)
    with n show ?thesis by (simp add: tag_exec_None)
  qed
qed

lemma no_entity_fixed: "no_entity s \<Longrightarrow> replace_all entity_re f s = s"
proof (rule replace_all_no_match)
  fix k
  assume "no_entity s"
  then have n: "no_entity (drop k s)" by (rule no_entity_drop)
  show "exec entity_re (drop k s) = None"
  proof (cases "drop k s")
    case Nil
    then show ?thesis by (simp add: entity_exec_Nil)
  next
    case (Cons c cs)
    with n have "\<not> (c = CHR ''&'' \<and> (\<exists>d ds. cs = d # ds \<and> d \<noteq> CHR '';'' \<and> CHR '';'' \<in> set ds))"
      by auto
    then show ?thesis unfolding Cons by (rule entity_exec_None)
  qed
qed

lemma stripHtml_no_markup: "no_tag (stripHtml s) \<and> no_entity (stripHtml s)"
  using no_tag_del_pass [OF entity_nonempty, where s = "replace_all tag_re (\<lambda>_ _. []) s"]
  by (simp add: stripHtml_def no_tag_strip no_entity_strip)

lemma stripHtml_fixed: "no_tag s \<Longrightarrow> no_entity s \<Longrightarrow> stripHtml s = s"
  by (simp add: stripHtml_def no_tag_fixed no_entity_fixed)

lemma stripHtml_idem: "stripHtml (stripHtml s) = stripHtml s"
  using stripHtml_no_markup [of s] by (simp add: stripHtml_fixed)


section \<open>Redaction leaves stripped text free of markup\<close>

lemma grp_matchD:
  "(g, r) \<in> set (matches (Grp a) s) \<Longrightarrow>
   \<exists>g1. (g1, r) \<in> set (matches a s) \<and> g = take (length s - length r) s # g1"
  by (auto simp: matches.simps)

lemma plain_matchD:
  "plain_re re \<Longrightarrow> (g, r) \<in> set (matches re s) \<Longrightarrow>
   \<exists>m. s = m @ r \<and> plain m \<and> (\<forall>x \<in> set g. plain x)"
proof (induction re arbitrary: s g r)
  case (Cls p)
  from cls_matchD [OF Cls(2)] obtain c where c: "s = c # r" "p c" by blast
  moreover from Cls(2) have "g = []" by (cases s) (auto simp: matches.simps split: if_splits)
  ultimately have "s = [c] @ r \<and> plain [c] \<and> (\<forall>x \<in> set g. plain x)"
    using Cls(1) by (simp add: plain_def)
  then show ?case by blast
next
  case (Rep p lo hi)
  from rep_match_split [OF Rep(2)] obtain u where u: "s = u @ r" "\<forall>c \<in> set u. p c" by blast
  moreover from Rep(2) have "g = []" by (auto simp: matches.simps Let_def)
  ultimately have "s = u @ r \<and> plain u \<and> (\<forall>x \<in> set g. plain x)"
    using Rep(1) by (simp add: plain_def)
  then show ?case by blast
next
  case (Seq a b)
  from seq_matchD [OF Seq(4)] obtain g1 s1 g2 where
    m: "(g1, s1) \<in> set (matches a s)" "(g2, r) \<in> set (matches b s1)" "g = g1 @ g2" by blast
  from Seq(3) have pa: "plain_re a" and pb: "plain_re b" by simp_all
  from Seq(1) [OF pa m(1)] obtain m1 where m1: "s = m1 @ s1" "plain m1" "\<forall>x \<in> set g1. plain x" by blast
  from Seq(2) [OF pb m(2)] obtain m2 where m2: "s1 = m2 @ r" "plain m2" "\<forall>x \<in> set g2. plain x" by blast
  from m1 m2 m(3) have "s = (m1 @ m2) @ r \<and> plain (m1 @ m2) \<and> (\<forall>x \<in> set g. plain x)"
    by (auto simp: plain_def)
  then show ?case by blast
next
  case (Alt a b)
  from alt_matchD [OF Alt(4)] Alt(1,2,3) show ?case by auto
next
  case (Grp a)
  from grp_matchD [OF Grp(3)] obtain g1 where
    g1: "(g1, r) \<in> set (matches a s)" "g = take (length s - length r) s # g1" by blast
  from Grp(2) have "plain_re a" by simp
  from Grp(1) [OF this g1(1)] obtain m where m: "s = m @ r" "plain m" "\<forall>x \<in> set g1. plain x" by blast
  then have "take (length s - length r) s = m" by simp
  with m g1(2) have "s = m @ r \<and> plain m \<and> (\<forall>x \<in> set g. plain x)" by simp
  then show ?case by blast
qed

lemma group_countD:
  "group_count re = Some n \<Longrightarrow> (g, r) \<in> set (matches re s) \<Longrightarrow> length g = n"
proof (induction re arbitrary: s g r n)
  case (Cls p)
  then show ?case by (cases s) (auto simp: matches.simps split: if_splits)
next
  case (Rep p lo hi)
  then show ?case by (auto simp: matches.simps Let_def)
next
  case (Seq a b)
  from seq_matchD [OF Seq(4)] obtain g1 s1 g2 where
    m: "(g1, s1) \<in> set (matches a s)" "(g2, r) \<in> set (matches b s1)" "g = g1 @ g2" by blast
  from Seq(3) obtain k l where kl: "group_count a = Some k" "group_count b = Some l" "n = k + l"
    by (auto split: option.splits)
  from Seq(1) [OF kl(1) m(1)] Seq(2) [OF kl(2) m(2)] m(3) kl(3) show ?case by simp
next
  case (Alt a b)
  from Alt(3) have kl: "group_count a = Some n" "group_count b = Some n"
    by (auto split: option.splits if_splits)
  from alt_matchD [OF Alt(4)] Alt(1) [OF kl(1)] Alt(2) [OF kl(2)] show ?case by blast
next
  case (Grp a)
  from grp_matchD [OF Grp(3)] obtain g1 where
    g1: "(g1, r) \<in> set (matches a s)" "g = take (length s - length r) s # g1" by blast
  from Grp(2) obtain k where k: "group_count a = Some k" "n = Suc k" by (auto split: option.splits)
  from Grp(1) [OF k(1) g1(1)] g1(2) k(2) show ?case by simp
qed

lemma pass_induct:
  assumes nonempty: "\<And>s m gs rest. exec r s = Some (m, gs, rest) \<Longrightarrow> m \<noteq> []"
    and nil: "Q []"
    and keep: "\<And>c cs. exec r (c # cs) = None \<Longrightarrow> Q cs \<Longrightarrow>
        replace_all r f (c # cs) = c # replace_all r f cs \<Longrightarrow> Q (c # cs)"
    and repl: "\<And>c cs m gs rest. exec r (c # cs) = Some (m, gs, rest) \<Longrightarrow> m \<noteq> [] \<Longrightarrow>
        c # cs = m @ rest \<Longrightarrow> Q rest \<Longrightarrow>
        replace_all r f (c # cs) = f m gs @ replace_all r f rest \<Longrightarrow> Q (c # cs)"
  shows "Q s"
proof (induction s rule: length_induct)
  case (1 s)
  show ?case
  proof (cases s)
    case Nil
    with nil show ?thesis by simp
  next
    case (Cons c cs)
    show ?thesis
    proof (cases "exec r (c # cs)")
      case None
      from 1 Cons have "Q cs" by simp
      with None show ?thesis unfolding Cons by (intro keep) simp_all
    next
      case (Some a)
      obtain m gs rest where a: "a = (m, gs, rest)" by (cases a) auto
      from Some a have e: "exec r (c # cs) = Some (m, gs, rest)" by simp
      from nonempty [OF e] have ne: "m \<noteq> []" .
      from exec_SomeD [OF e] have sp: "c # cs = m @ rest" .
      with ne have l: "length rest < length (c # cs)" by (cases m) auto
      with 1 Cons have q: "Q rest" by simp
      have eq: "replace_all r f (c # cs) = f m gs @ replace_all r f rest"
        by (rule replace_all_at_match [OF e ne])
      show ?thesis unfolding Cons by (rule repl [OF e ne sp q eq])
    qed
  qed
qed

lemma replace_all_Nil:
  assumes "\<And>s m gs rest. exec r s = Some (m, gs, rest) \<Longrightarrow> m \<noteq> []"
  shows "replace_all r f [] = []"
proof (cases "exec r []")
  case None
  then show ?thesis by simp
next
  case (Some a)
  obtain m gs rest where a: "a = (m, gs, rest)" by (cases a) auto
  from Some a have e: "exec r [] = Some (m, gs, rest)" by simp
  from exec_SomeD [OF e] assms [OF e] show ?thesis by simp
qed

lemma plain_pass_nonempty:
  "plain_pass r f \<Longrightarrow> exec r s = Some (m, gs, rest) \<Longrightarrow> m \<noteq> []"
  unfolding plain_pass_def by blast

lemma plain_pass_markup:
  assumes pp: "plain_pass r f"
  shows "\<forall>x \<in> set (replace_all r f s). markup_char x \<longrightarrow> x \<in> set s"
proof (rule pass_induct [where r = r and f = f and s = s and
      Q = "\<lambda>s. \<forall>x \<in> set (replace_all r f s). markup_char x \<longrightarrow> x \<in> set s"])
  show "\<And>s m gs rest. exec r s = Some (m, gs, rest) \<Longrightarrow> m \<noteq> []"
    by (rule plain_pass_nonempty [OF pp])
  show "\<forall>x \<in> set (replace_all r f []). markup_char x \<longrightarrow> x \<in> set []"
    by (simp add: replace_all_Nil [OF plain_pass_nonempty [OF pp]] del: replace_all.simps)
next
  fix c cs
  assume "\<forall>x \<in> set (replace_all r f cs). markup_char x \<longrightarrow> x \<in> set cs"
    "replace_all r f (c # cs) = c # replace_all r f cs"
  then show "\<forall>x \<in> set (replace_all r f (c # cs)). markup_char x \<longrightarrow> x \<in> set (c # cs)" by auto
next
  fix c cs m gs rest
  assume e: "exec r (c # cs) = Some (m, gs, rest)" and sp: "c # cs = m @ rest"
    and ih: "\<forall>x \<in> set (replace_all r f rest). markup_char x \<longrightarrow> x \<in> set rest"
    and eq: "replace_all r f (c # cs) = f m gs @ replace_all r f rest"
  from pp e have p: "plain (f m gs)" unfolding plain_pass_def by blast
  show "\<forall>x \<in> set (replace_all r f (c # cs)). markup_char x \<longrightarrow> x \<in> set (c # cs)"
  proof (intro ballI impI)
    fix x
    assume "x \<in> set (replace_all r f (c # cs))" and mx: "markup_char x"
    then have "x \<in> set (f m gs) \<or> x \<in> set (replace_all r f rest)" unfolding eq by simp
    with p mx have "x \<in> set (replace_all r f rest)" by (auto simp: plain_def)
    with ih mx have "x \<in> set rest" by blast
    then show "x \<in> set (c # cs)" unfolding sp by simp
  qed
qed

lemma no_tag_plain_prefix: "plain u \<Longrightarrow> no_tag (u @ v) = no_tag v"
  by (induction u) (auto simp: plain_def markup_char_def)

lemma no_entity_plain_prefix: "plain u \<Longrightarrow> no_entity (u @ v) = no_entity v"
  by (induction u) (auto simp: plain_def markup_char_def)

lemma plain_pass_no_tag:
  assumes pp: "plain_pass r f"
  shows "no_tag s \<longrightarrow> no_tag (replace_all r f s)"
proof (rule pass_induct [where r = r and f = f and s = s and
      Q = "\<lambda>s. no_tag s \<longrightarrow> no_tag (replace_all r f s)"])
  show "\<And>s m gs rest. exec r s = Some (m, gs, rest) \<Longrightarrow> m \<noteq> []"
    by (rule plain_pass_nonempty [OF pp])
  show "no_tag [] \<longrightarrow> no_tag (replace_all r f [])"
    by (simp add: replace_all_Nil [OF plain_pass_nonempty [OF pp]] del: replace_all.simps)
next
  fix c cs
  assume ih: "no_tag cs \<longrightarrow> no_tag (replace_all r f cs)"
    and eq: "replace_all r f (c # cs) = c # replace_all r f cs"
  have "markup_char (CHR ''>'')" by (simp add: markup_char_def)
  with plain_pass_markup [OF pp, of cs] have "CHR ''>'' \<in> set (replace_all r f cs) \<longrightarrow> CHR ''>'' \<in> set cs"
    by blast
  with ih show "no_tag (c # cs) \<longrightarrow> no_tag (replace_all r f (c # cs))" unfolding eq by auto
next
  fix c cs m gs rest
  assume e: "exec r (c # cs) = Some (m, gs, rest)" and sp: "c # cs = m @ rest"
    and ih: "no_tag rest \<longrightarrow> no_tag (replace_all r f rest)"
    and eq: "replace_all r f (c # cs) = f m gs @ replace_all r f rest"
  from pp e have p: "plain (f m gs)" unfolding plain_pass_def by blast
  show "no_tag (c # cs) \<longrightarrow> no_tag (replace_all r f (c # cs))"
  proof
    assume "no_tag (c # cs)"
    then have "no_tag rest" unfolding sp by (rule no_tag_suffix)
    with ih show "no_tag (replace_all r f (c # cs))" unfolding eq by (simp add: no_tag_plain_prefix [OF p])
  qed
qed

lemma plain_pass_no_entity:
  assumes pp: "plain_pass r f"
  shows "no_entity s \<longrightarrow> no_entity (replace_all r f s)"
proof (rule pass_induct [where r = r and f = f and s = s and
      Q = "\<lambda>s. no_entity s \<longrightarrow> no_entity (replace_all r f s)"])
  show ne: "\<And>s m gs rest. exec r s = Some (m, gs, rest) \<Longrightarrow> m \<noteq> []"
    by (rule plain_pass_nonempty [OF pp])
  show "no_entity [] \<longrightarrow> no_entity (replace_all r f [])"
    by (simp add: replace_all_Nil [OF plain_pass_nonempty [OF pp]] del: replace_all.simps)
next
  fix c cs
  let ?P = "replace_all r f"
  assume ih: "no_entity cs \<longrightarrow> no_entity (?P cs)"
    and eq: "?P (c # cs) = c # ?P cs"
  have semi: "markup_char (CHR '';'')" by (simp add: markup_char_def)
  have step: "case ?P cs of [] \<Rightarrow> True | d # ds \<Rightarrow> d = CHR '';'' \<or> CHR '';'' \<notin> set ds"
    if a: "case cs of [] \<Rightarrow> True | d # ds \<Rightarrow> d = CHR '';'' \<or> CHR '';'' \<notin> set ds"
  proof (cases cs)
    case Nil
    then show ?thesis
      by (simp add: replace_all_Nil [OF plain_pass_nonempty [OF pp]] del: replace_all.simps)
  next
    case (Cons d ds)
    show ?thesis
    proof (cases "d = CHR '';''")
      case True
      have "exec r (d # ds) = None"
      proof (rule ccontr)
        assume "exec r (d # ds) \<noteq> None"
        then obtain m gs rest where e: "exec r (d # ds) = Some (m, gs, rest)" by auto
        with pp have "m \<noteq> []" "plain m" unfolding plain_pass_def by blast+
        moreover from exec_SomeD [OF e] have "d # ds = m @ rest" .
        ultimately have "\<not> markup_char d" by (cases m) (auto simp: plain_def)
        with True semi show False by simp
      qed
      with Cons True show ?thesis by simp
    next
      case False
      with a Cons have "CHR '';'' \<notin> set cs" by simp
      with plain_pass_markup [OF pp, of cs] semi have "CHR '';'' \<notin> set (?P cs)" by blast
      then show ?thesis by (cases "?P cs") auto
    qed
  qed
  with ih show "no_entity (c # cs) \<longrightarrow> no_entity (?P (c # cs))" unfolding eq by simp
next
  fix c cs m gs rest
  assume e: "exec r (c # cs) = Some (m, gs, rest)" and sp: "c # cs = m @ rest"
    and ih: "no_entity rest \<longrightarrow> no_entity (replace_all r f rest)"
    and eq: "replace_all r f (c # cs) = f m gs @ replace_all r f rest"
  from pp e have p: "plain (f m gs)" unfolding plain_pass_def by blast
  show "no_entity (c # cs) \<longrightarrow> no_entity (replace_all r f (c # cs))"
  proof
    assume "no_entity (c # cs)"
    then have "no_entity rest" unfolding sp by (rule no_entity_suffix)
    with ih show "no_entity (replace_all r f (c # cs))"
      unfolding eq by (simp add: no_entity_plain_prefix [OF p])
  qed
qed

lemma min_len_matchD:
  "(g, r) \<in> set (matches re s) \<Longrightarrow> min_len re + length r \<le> length s"
proof (induction re arbitrary: s g r)
  case (Cls p)
  from cls_matchD [OF Cls] show ?case by auto
next
  case (Rep p lo hi)
  from rep_match_split [OF Rep] show ?case by auto
next
  case (Seq a b)
  from seq_matchD [OF Seq(3)] obtain g1 s1 g2 where
    "(g1, s1) \<in> set (matches a s)" "(g2, r) \<in> set (matches b s1)" by blast
  with Seq(1) [of g1 s1 s] Seq(2) [of g2 r s1] show ?case by simp
next
  case (Alt a b)
  from alt_matchD [OF Alt(3)] Alt(1) [of g r s] Alt(2) [of g r s] show ?case by auto
next
  case (Grp a)
  from grp_matchD [OF Grp(2)] Grp(1) show ?case by auto
qed

lemma exec_facts:
  assumes e: "exec r s = Some (m, gs, rest)" and p: "plain_re r" and n: "group_count r = Some k"
  shows "min_len r \<le> length m \<and> plain m \<and> length gs = k \<and> (\<forall>x \<in> set gs. plain x)"
proof -
  from first_resultD [OF e] have i: "(gs, rest) \<in> set (matches r s)" .
  from exec_SomeD [OF e] have s: "s = m @ rest" .
  from plain_matchD [OF p i] obtain m' where "s = m' @ rest" "plain m'" "\<forall>x \<in> set gs. plain x" by blast
  with s have "plain m" "\<forall>x \<in> set gs. plain x" by simp_all
  moreover from min_len_matchD [OF i] s have "min_len r \<le> length m" by simp
  moreover from group_countD [OF n i] have "length gs = k" .
  ultimately show ?thesis by simp
qed

lemma same_ci_markup: "is_lower x \<Longrightarrow> same_ci x c \<Longrightarrow> \<not> markup_char c"
proof (cases "c = x")
  case True
  assume "is_lower x"
  with True show ?thesis by (auto simp: is_lower_def markup_char_def)
next
  case False
  assume l: "is_lower x" and "same_ci x c"
  with False have e: "of_char c + 32 = (of_char x :: nat)" by (simp add: same_ci_def)
  from lower_range [OF l] e have "65 \<le> (of_char c :: nat)" "(of_char c :: nat) \<le> 90" by simp_all
  then show ?thesis by (auto simp: markup_char_def)
qed

lemma word_ci_facts:
  "\<forall>x \<in> set w. is_lower x \<Longrightarrow>
   plain_re (word_ci w) \<and> group_count (word_ci w) = Some 0 \<and> min_len (word_ci w) = length w"
  by (induction w rule: word_ci.induct) (auto simp: same_ci_markup)

lemma class_markup:
  "is_space c \<Longrightarrow> \<not> markup_char c"
  "is_assign c \<Longrightarrow> \<not> markup_char c"
  "is_join c \<Longrightarrow> \<not> markup_char c"
  "is_digit c \<Longrightarrow> \<not> markup_char c"
  "is_alpha c \<Longrightarrow> \<not> markup_char c"
  by (auto simp: class_defs markup_char_def)

lemma class_markup2:
  "is_token_char c \<Longrightarrow> \<not> markup_char c"
  "is_user_char c \<Longrightarrow> \<not> markup_char c"
  "is_domain_char c \<Longrightarrow> \<not> markup_char c"
  "is_sep c \<Longrightarrow> \<not> markup_char c"
  using class_markup [of c]
  by (auto simp: is_token_char_def is_user_char_def is_domain_char_def is_sep_def is_alnum_def
      markup_char_def)

lemma all_lower:
  "\<forall>x \<in> set ''token''. is_lower x" "\<forall>x \<in> set ''api''. is_lower x" "\<forall>x \<in> set ''key''. is_lower x"
  "\<forall>x \<in> set ''secret''. is_lower x" "\<forall>x \<in> set ''password''. is_lower x"
  "\<forall>x \<in> set ''passwd''. is_lower x" "\<forall>x \<in> set ''pwd''. is_lower x"
  by (simp_all add: is_lower_def)

lemma literal_markup:
  "\<not> markup_char (CHR ''@'')" "\<not> markup_char (CHR ''.'')" "\<not> markup_char (CHR ''+'')"
  "\<not> markup_char (CHR ''('')" "\<not> markup_char (CHR '')'')"
  by (simp_all add: markup_char_def)

lemma token_re_facts:
  "plain_re token_re \<and> group_count token_re = Some 1 \<and> 0 < min_len token_re"
  using all_lower [THEN word_ci_facts]
  by (simp add: token_re_def opt_def class_markup class_markup2)

lemma email_re_facts:
  "plain_re email_re \<and> group_count email_re = Some 2 \<and> 0 < min_len email_re"
  by (simp add: email_re_def class_markup class_markup2 literal_markup)

lemma phone_re_facts:
  "plain_re phone_re \<and> group_count phone_re = Some 1 \<and> 0 < min_len phone_re"
  by (simp add: phone_re_def opt_def class_markup class_markup2 literal_markup)

lemma set_replace_first: "set (replace_first pat rep s) \<subseteq> set s \<union> set rep"
proof (induction s)
  case Nil
  show ?case by auto
next
  case (Cons c cs)
  have "set (drop (length pat) (c # cs)) \<subseteq> set (c # cs)" by (rule set_drop_subset)
  with Cons show ?case by auto
qed

lemma plain_stars: "plain ''****''"
  by (simp add: plain_def markup_char_def)

lemma plain_Cons: "plain (c # u) \<longleftrightarrow> \<not> markup_char c \<and> plain u"
  by (simp add: plain_def)

lemma plain_Nil: "plain []"
  by (simp add: plain_def)

lemma star_markup: "\<not> markup_char (CHR ''*'')"
  by (simp add: markup_char_def)

lemma plain_append: "plain (u @ v) \<longleftrightarrow> plain u \<and> plain v"
  by (auto simp: plain_def)

lemma plain_take: "plain u \<Longrightarrow> plain (take k u)"
  by (auto simp: plain_def dest: in_set_takeD)

lemma plain_drop: "plain u \<Longrightarrow> plain (drop k u)"
  by (auto simp: plain_def dest: in_set_dropD)

lemma plain_replace_first: "plain s \<Longrightarrow> plain rep \<Longrightarrow> plain (replace_first pat rep s)"
  using set_replace_first [of pat rep s] by (auto simp: plain_def)

lemma plain_pass_token: "plain_pass token_re mask_token"
  unfolding plain_pass_def
proof (intro allI impI)
  fix s m gs rest
  assume e: "exec token_re s = Some (m, gs, rest)"
  from exec_facts [OF e] token_re_facts
  have f: "0 < length m" "plain m" "length gs = 1" "\<forall>x \<in> set gs. plain x" by auto
  from f(3) obtain tok where g: "gs = [tok]" by (cases gs) auto
  with f(4) have t: "plain tok" by simp
  have "plain (mask_token m gs)"
    unfolding mask_token_def Let_def g
    using f(2) t
    by (auto intro!: plain_replace_first
        simp: plain_append plain_take plain_drop plain_Cons plain_Nil star_markup)
  with f show "m \<noteq> [] \<and> plain m \<and> plain (mask_token m gs)" by auto
qed

lemma plain_pass_email: "plain_pass email_re mask_email"
  unfolding plain_pass_def
proof (intro allI impI)
  fix s m gs rest
  assume e: "exec email_re s = Some (m, gs, rest)"
  from exec_facts [OF e] email_re_facts
  have f: "0 < length m" "plain m" "length gs = 2" "\<forall>x \<in> set gs. plain x" by auto
  from f(3) obtain user dom where g: "gs = [user, dom]"
    by (cases gs; cases "tl gs") auto
  with f(4) have t: "plain user" "plain dom" by simp_all
  have "plain (mask_email m gs)"
    unfolding mask_email_def Let_def g
    by (simp add: plain_append plain_take plain_Cons plain_Nil star_markup literal_markup t)
  with f show "m \<noteq> [] \<and> plain m \<and> plain (mask_email m gs)" by auto
qed

lemma plain_pass_phone: "plain_pass phone_re mask_phone"
  unfolding plain_pass_def
proof (intro allI impI)
  fix s m gs rest
  assume e: "exec phone_re s = Some (m, gs, rest)"
  from exec_facts [OF e] phone_re_facts
  have f: "0 < length m" "plain m" by auto
  from f(2) have "plain (filter (\<lambda>c. \<not> \<not> is_digit c) m)" by (simp add: plain_def)
  then have "plain (mask_phone m gs)"
    unfolding mask_phone_def Let_def replace_all_cls_del
    by (simp add: plain_append plain_take plain_drop plain_Cons plain_Nil star_markup)
  with f show "m \<noteq> [] \<and> plain m \<and> plain (mask_phone m gs)" by auto
qed

lemma hideSensitive_keeps_stripped:
  assumes "no_tag s" "no_entity s"
  shows "no_tag (hideSensitive s) \<and> no_entity (hideSensitive s)"
  using assms
  by (simp add: hideSensitive_def Let_def
      plain_pass_no_tag [OF plain_pass_token, rule_format]
      plain_pass_no_tag [OF plain_pass_email, rule_format]
      plain_pass_no_tag [OF plain_pass_phone, rule_format]
      plain_pass_no_entity [OF plain_pass_token, rule_format]
      plain_pass_no_entity [OF plain_pass_email, rule_format]
      plain_pass_no_entity [OF plain_pass_phone, rule_format])

lemma stripHtml_after_redaction:
  "stripHtml (hideSensitive (stripHtml s)) = hideSensitive (stripHtml s)"
  using hideSensitive_keeps_stripped [of "stripHtml s"] stripHtml_no_markup [of s]
  by (simp add: stripHtml_fixed)


section \<open>Properties of sanitizing\<close>

lemma on_title_fixed:
  assumes "on_title g t = Inr t2" "\<And>s. t = JStr s \<Longrightarrow> f (g s) = g s"
  shows "on_title f t2 = Inr t2"
proof (cases "truthy t")
  case True
  with assms(1) obtain s where s: "t = JStr s" "t2 = JStr (g s)"
    by (cases t) (auto simp: on_title_def as_string_def)
  then show ?thesis using assms(2) by (simp add: on_title_def as_string_def)
next
  case False
  with assms(1) show ?thesis by (simp add: on_title_def)
qed

lemma stripped_title:
  assumes "on_title stripHtml t = Inr (JStr s)"
  shows "no_tag s \<and> no_entity s"
proof (cases "truthy t")
  case True
  with assms obtain s0 where "t = JStr s0" "s = stripHtml s0"
    by (cases t) (auto simp: on_title_def as_string_def)
  then show ?thesis by (simp add: stripHtml_no_markup)
next
  case False
  with assms have "t = JStr s" by (simp add: on_title_def)
  with False show ?thesis by simp
qed

text \<open>
  Claim C3, amended. Markup stripping never matches its own output nor the masked
  output of the redaction: \<open>stripHtml\<close> leaves the results of \<open>stripHtml\<close> and of
  \<open>hideSensitive\<close> after \<open>stripHtml\<close> unchanged. So a message that \<open>sanitizeMessage\<close> has
  returned, with or without redaction, is returned unchanged when it is sanitized
  again with \<open>hideSensitive = false\<close>.
\<close>

theorem markup_stripping_idempotent:
  "(sanitizeMessage m hide = Inr m1 \<longrightarrow> sanitizeMessage m1 False = Inr m1) \<and>
   stripHtml (stripHtml s) = stripHtml s \<and>
   stripHtml (hideSensitive (stripHtml s)) = hideSensitive (stripHtml s)"
proof -
  have "sanitizeMessage m1 False = Inr m1" if a: "sanitizeMessage m hide = Inr m1"
  proof -
    from a obtain c0 where c0: "content m = JStr c0"
      by (cases "content m") (auto simp: sanitizeMessage_def as_string_def)
    from a c0 obtain t1 where t1: "on_title stripHtml (title m) = Inr t1"
      by (cases "on_title stripHtml (title m)") (auto simp: sanitizeMessage_def as_string_def)
    have t1f: "on_title stripHtml t1 = Inr t1"
      by (rule on_title_fixed [OF t1]) (rule stripHtml_idem)
    show ?thesis
    proof (cases hide)
      case False
      with a c0 t1 have m1: "m1 = m\<lparr>content := JStr (stripHtml c0), title := t1, sanitized := True\<rparr>"
        by (simp add: sanitizeMessage_def as_string_def)
      show ?thesis unfolding m1 using t1f
        by (simp add: sanitizeMessage_def as_string_def stripHtml_idem)
    next
      case True
      with a c0 t1 obtain t2 where t2: "on_title hideSensitive t1 = Inr t2"
        by (cases "on_title hideSensitive t1") (auto simp: sanitizeMessage_def as_string_def)
      from True a c0 t1 t2
      have m1: "m1 = m\<lparr>content := JStr (hideSensitive (stripHtml c0)), title := t2, sanitized := True\<rparr>"
        by (simp add: sanitizeMessage_def as_string_def)
      have "stripHtml (hideSensitive x) = hideSensitive x" if "t1 = JStr x" for x
      proof -
        from t1 that have "no_tag x \<and> no_entity x" by (intro stripped_title [of "title m"]) simp
        then have "no_tag (hideSensitive x) \<and> no_entity (hideSensitive x)"
          by (simp add: hideSensitive_keeps_stripped)
        then show ?thesis by (simp add: stripHtml_fixed)
      qed
      with on_title_fixed [OF t2] have "on_title stripHtml t2 = Inr t2" by blast
      then show ?thesis unfolding m1
        by (simp add: sanitizeMessage_def as_string_def stripHtml_after_redaction)
    qed
  qed
  then show ?thesis by (simp add: stripHtml_idem stripHtml_after_redaction)
qed

theorem markup_stripping_idempotent_witness:
  "sanitizeMessage (memo ''<b>Build</b> 1234567 failed &amp; <i>retried</i>'' False) True
     = Inr (memo ''Build 12****67 failed  retried'' True) \<and>
   sanitizeMessage (memo ''Build 12****67 failed  retried'' True) False
     = Inr (memo ''Build 12****67 failed  retried'' True)"
proof -
  have a: "sanitizeMessage (memo ''<b>Build</b> 1234567 failed &amp; <i>retried</i>'' False) True
     = Inr (memo ''Build 12****67 failed  retried'' True)"
    by code_simp
  from markup_stripping_idempotent [of "memo ''<b>Build</b> 1234567 failed &amp; <i>retried</i>'' False"
      True "memo ''Build 12****67 failed  retried'' True" "[]"] a
  show ?thesis by simp
qed

text \<open>
  Claim C3 as stated is about sanitizing again with \<open>hideSensitive = true\<close>. There the
  phone pattern matches next to its own masked output: of a time stamp the date is
  masked first, and a second pass masks the last two digits of the date together
  with the hour.
\<close>

theorem sanitize_twice_differs:
  "sanitizeMessage (memo ''2024-01-15 10:30:45'' False) True = Inr (memo ''20****15 10:30:45'' True) \<and>
   sanitizeMessage (memo ''20****15 10:30:45'' True) True = Inr (memo ''20********:30:45'' True)"
  by code_simp

text \<open>
  Claim C10 as stated covers every run of more than four digits. The pattern takes at
  most 3 + 4 + 4 + 9 = 20 digits: of a run of 21 digits the first 20 are masked and the
  last digit stays, so three digits are kept at the end.
\<close>

theorem long_digit_run_keeps_more:
  "hideSensitive ''123456789012345678901'' = ''12****901''"
  by code_simp

theorem digit_run_masked_witness:
  "hideSensitive ''year 2024 was fine'' = ''year **** was fine'' \<and>
   hideSensitive ''build 1234567 (main)'' = ''build 12****67 (main)''"
  using digit_run_masked [of "''2024''" "''year ''" "'' was fine''"]
    digit_run_masked [of "''1234567''" "''build ''" "'' (main)''"]
  by (simp add: class_defs)


section \<open>What the redaction does to a match\<close>


















end
